theory Spec2Isabelle
  imports Main "HOL-Library.Word"
begin

section \<open>The native XML engine as an oracle\<close>

text \<open>
  The Berkeley DB XML library (namespace DbXml) is not part of the repository. Every call
  the C++ layer makes into it is a constructor of \<open>libcall\<close>; the library itself is a
  parameter \<open>L\<close>, a function from the call and the engine's state (an arbitrary type
  \<open>'w\<close>) to an outcome and the engine's new state. The outcome \<open>Inl what\<close> is a thrown
  \<open>DbXml::XmlException\<close> with message \<open>what\<close>, \<open>Inr v\<close> a normal return.

  Library objects that are members of a \<open>c_dbxml_t\<close> (manager, context, container) or of a
  \<open>c_dbxml_docs_t\<close> (doc, it, context) belong to the engine; a call names them by the
  address of the struct that holds them.
\<close>

datatype libval = VUnit | VBool bool | VStr string | VNat nat

datatype libcall =
    CreateUpdateContext nat
  | ExistsContainer nat string
  | OpenContainer nat string bool
  | CreateContainer nat string
  | AddAlias nat string
  | DeleteDocument nat string
  | CreateLocalFileInputStream nat string
  | PutDocumentStream nat string
  | PutDocumentString nat string string
  | MergeOpenContainer nat string
  | MergeGetAllDocuments nat
  | MergeNext nat
  | MergeDocGetName nat
  | PutDocumentDoc nat
  | GetDocument nat string
  | GetContent nat
  | GetNumDocuments nat
  | GetAllDocuments nat nat
  | CreateQueryContext nat nat
  | SetDefaultCollection nat string
  | Query nat nat string
  | ResultsNext nat
  | DocGetName nat
  | DocGetContent nat
  | DeleteDb nat
  | DeleteDocs nat

type_synonym 'w dbxml = "libcall \<Rightarrow> 'w \<Rightarrow> (string + libval) \<times> 'w"

fun the_bool :: "libval \<Rightarrow> bool" where
  "the_bool (VBool b) = b"
| "the_bool _ = False"

fun the_str :: "libval \<Rightarrow> string" where
  "the_str (VStr s) = s"
| "the_str _ = []"

fun the_nat :: "libval \<Rightarrow> nat" where
  "the_nat (VNat k) = k"
| "the_nat _ = 0"

section \<open>The native resource layer (c\_dbxml.cc)\<close>

text \<open>The two structs. The library objects they hold are in the engine.\<close>

record c_dbxml_t =
  config_readOnly :: bool
  error :: bool
  errstring :: string
  result :: string

record c_dbxml_docs_t =
  c_more :: bool
  c_name :: string
  c_content :: string

text \<open>
  The exported functions of c\_dbxml.h. The trace of the native side holds, in order, every
  call that crosses from Go into the native layer (with the address it is given, or the one
  it allocates) and every call of the native layer into the library, with its outcome.
\<close>

datatype cfun =
    F_open | F_free | F_error | F_errstring
  | F_put_file | F_put_xml | F_merge | F_remove
  | F_get | F_size | F_get_all | F_get_query
  | F_docs_next | F_docs_name | F_docs_content | F_docs_free

datatype event = Call cfun nat | Lib libcall "string + libval"

text \<open>
  The native side of the process: the engine, the trace of everything that happened in the
  native layer, and the C++ heap of the two kinds of struct. \<open>new\<close> takes the address
  \<open>fresh\<close> and never hands an address out twice, \<open>delete\<close> removes the struct; a
  function given an address that holds no struct has undefined behaviour, which is the
  fault \<open>Dangling\<close>.
\<close>

record 'w native =
  engine :: 'w
  trace :: "event list"
  handles :: "nat \<rightharpoonup> c_dbxml_t"
  cursors :: "nat \<rightharpoonup> c_dbxml_docs_t"
  fresh :: nat

text \<open>
  How a call can fail to return: an \<open>XmlException\<close> that no handler of the native layer
  catches leaves the \<open>extern "C"\<close> function, a function is handed a freed struct, or Go
  dereferences a nil pointer or assigns into a nil map.
\<close>

datatype fault = Uncaught string | Dangling | NilDeref

definition ALIAS :: string where
  "ALIAS = ''c_dbxml''"

definition lib :: "'w dbxml \<Rightarrow> libcall \<Rightarrow> 'w native \<Rightarrow> (string + libval) \<times> 'w native" where
  "lib L c n = (case L c (engine n) of
                  (r, w) \<Rightarrow> (r, n\<lparr>engine := w, trace := trace n @ [Lib c r]\<rparr>))"

definition enter :: "cfun \<Rightarrow> nat \<Rightarrow> 'w native \<Rightarrow> 'w native" where
  "enter f a n = n\<lparr>trace := trace n @ [Call f a]\<rparr>"

definition store :: "nat \<Rightarrow> c_dbxml_t \<Rightarrow> 'w native \<Rightarrow> 'w native" where
  "store db t n = n\<lparr>handles := (handles n)(db \<mapsto> t)\<rparr>"

definition store_docs :: "nat \<Rightarrow> c_dbxml_docs_t \<Rightarrow> 'w native \<Rightarrow> 'w native" where
  "store_docs docs t n = n\<lparr>cursors := (cursors n)(docs \<mapsto> t)\<rparr>"

definition caught :: "string \<Rightarrow> c_dbxml_t \<Rightarrow> c_dbxml_t" where
  "caught what t = t\<lparr>errstring := what, error := True\<rparr>"

subsection \<open>c\_dbxml\_open\<close>

text \<open>The \<open>try\<close> block of one round of the loop, with its \<open>catch\<close>.\<close>

definition open_try ::
  "'w dbxml \<Rightarrow> nat \<Rightarrow> string \<Rightarrow> int \<Rightarrow> c_dbxml_t \<times> 'w native \<Rightarrow> c_dbxml_t \<times> 'w native" where
  "open_try L db filename i tn =
    (case tn of (t, n) \<Rightarrow>
      (case lib L (CreateUpdateContext db) n of
         (Inl what, n1) \<Rightarrow> (caught what t, n1)
       | (Inr _, n1) \<Rightarrow>
          let t1 = (if i = 1 then t\<lparr>config_readOnly := True\<rparr> else t) in
          (case lib L (ExistsContainer db filename) n1 of
             (Inl what, n2) \<Rightarrow> (caught what t1, n2)
           | (Inr ex, n2) \<Rightarrow>
              (case lib L (if the_bool ex
                           then OpenContainer db filename (config_readOnly t1)
                           else CreateContainer db filename) n2 of
                 (Inl what, n3) \<Rightarrow> (caught what t1, n3)
               | (Inr _, n3) \<Rightarrow>
                  (case lib L (AddAlias db ALIAS) n3 of
                     (Inl what, n4) \<Rightarrow> (caught what t1, n4)
                   | (Inr ok, n4) \<Rightarrow>
                      if \<not> the_bool ok
                      then (t1\<lparr>errstring := ''Unable to add alias '' @ [CHR 0x22] @ ALIAS @ [CHR 0x22],
                               error := True\<rparr>, n4)
                      else (t1, n4))))))"

function open_loop ::
  "'w dbxml \<Rightarrow> nat \<Rightarrow> string \<Rightarrow> int \<Rightarrow> c_dbxml_t \<times> 'w native \<Rightarrow> c_dbxml_t \<times> 'w native" where
  "open_loop L db filename i tn =
    (if i < 2
     then (case open_try L db filename i
                  (fst tn\<lparr>error := False, errstring := []\<rparr>, snd tn) of
             (t, n) \<Rightarrow> if error t = False then (t, n)
                       else open_loop L db filename (i + 1) (t, n))
     else tn)"
  by pat_completeness auto
termination
  by (relation "measure (\<lambda>(L, db, filename, i, tn). nat (2 - i))") auto

declare open_loop.simps [simp del]

definition c_dbxml_open :: "'w dbxml \<Rightarrow> string \<Rightarrow> 'w native \<Rightarrow> nat \<times> 'w native" where
  "c_dbxml_open L filename n =
    (let db = fresh n;
         n0 = enter F_open db (n\<lparr>fresh := Suc (fresh n)\<rparr>);
         t0 = \<lparr>config_readOnly = False, error = False, errstring = [], result = []\<rparr>
     in (case open_loop L db filename 0 (t0, n0) of
           (t, n1) \<Rightarrow> (db, store db t n1)))"

subsection \<open>c\_dbxml\_free, c\_dbxml\_error, c\_dbxml\_errstring\<close>

text \<open>
  \<open>delete db\<close> runs the destructors of the library objects, which do not throw: of the
  oracle's answer only the engine is kept.
\<close>

definition c_dbxml_free :: "'w dbxml \<Rightarrow> nat \<Rightarrow> 'w native \<Rightarrow> fault + 'w native" where
  "c_dbxml_free L db n =
    (case handles n db of
       None \<Rightarrow> Inl Dangling
     | Some t \<Rightarrow>
        let n1 = snd (lib L (DeleteDb db) (enter F_free db n))
        in Inr (n1\<lparr>handles := (handles n1)(db := None)\<rparr>))"

definition c_dbxml_error :: "nat \<Rightarrow> 'w native \<Rightarrow> fault + int \<times> 'w native" where
  "c_dbxml_error db n =
    (case handles n db of
       None \<Rightarrow> Inl Dangling
     | Some t \<Rightarrow> Inr (if error t then 1 else 0, enter F_error db n))"

definition c_dbxml_errstring :: "nat \<Rightarrow> 'w native \<Rightarrow> fault + string \<times> 'w native" where
  "c_dbxml_errstring db n =
    (case handles n db of
       None \<Rightarrow> Inl Dangling
     | Some t \<Rightarrow> Inr (errstring t, enter F_errstring db n))"

subsection \<open>Writing\<close>

definition c_dbxml_put_file ::
  "'w dbxml \<Rightarrow> nat \<Rightarrow> string \<Rightarrow> int \<Rightarrow> 'w native \<Rightarrow> fault + int \<times> 'w native" where
  "c_dbxml_put_file L db filename replace n =
    (case handles n db of
       None \<Rightarrow> Inl Dangling
     | Some t0 \<Rightarrow>
        let t = t0\<lparr>errstring := [], error := False\<rparr>;
            n0 = enter F_put_file db n;
            n1 = (if replace \<noteq> 0 then snd (lib L (DeleteDocument db filename) n0) else n0)
        in (case lib L (CreateLocalFileInputStream db filename) n1 of
              (Inl what, n2) \<Rightarrow> Inr (0, store db (t\<lparr>error := True, errstring := what\<rparr>) n2)
            | (Inr _, n2) \<Rightarrow>
               (case lib L (PutDocumentStream db filename) n2 of
                  (Inl what, n3) \<Rightarrow> Inr (0, store db (t\<lparr>error := True, errstring := what\<rparr>) n3)
                | (Inr _, n3) \<Rightarrow> Inr (1, store db t n3))))"

definition c_dbxml_put_xml ::
  "'w dbxml \<Rightarrow> nat \<Rightarrow> string \<Rightarrow> string \<Rightarrow> int \<Rightarrow> 'w native \<Rightarrow> fault + int \<times> 'w native" where
  "c_dbxml_put_xml L db nm data replace n =
    (case handles n db of
       None \<Rightarrow> Inl Dangling
     | Some t0 \<Rightarrow>
        let t = t0\<lparr>errstring := [], error := False\<rparr>;
            n0 = enter F_put_xml db n;
            n1 = (if replace \<noteq> 0 then snd (lib L (DeleteDocument db nm) n0) else n0)
        in (case lib L (PutDocumentString db nm data) n1 of
              (Inl what, n2) \<Rightarrow> Inr (0, store db (t\<lparr>error := True, errstring := what\<rparr>) n2)
            | (Inr _, n2) \<Rightarrow> Inr (1, store db t n2)))"

definition c_dbxml_remove ::
  "'w dbxml \<Rightarrow> nat \<Rightarrow> string \<Rightarrow> 'w native \<Rightarrow> fault + int \<times> 'w native" where
  "c_dbxml_remove L db filename n =
    (case handles n db of
       None \<Rightarrow> Inl Dangling
     | Some t0 \<Rightarrow>
        let t = t0\<lparr>errstring := [], error := False\<rparr>;
            n0 = enter F_remove db n
        in (case lib L (DeleteDocument db filename) n0 of
              (Inl what, n1) \<Rightarrow> Inr (0, store db (t\<lparr>error := True, errstring := what\<rparr>) n1)
            | (Inr _, n1) \<Rightarrow> Inr (1, store db t n1)))"

text \<open>
  The loop of c\_dbxml\_merge. Whether it ends is up to the library's cursor over the
  other container, so the loop is a partial function: \<open>None\<close> is a loop that never ends.
  \<open>it.next\<close> stands outside every \<open>try\<close> block. \<open>merge_delete\<close> is the first
  \<open>try\<close> block of the body, in which \<open>doc.getName()\<close> is evaluated too and whose
  handler is empty.
\<close>

definition merge_delete :: "'w dbxml \<Rightarrow> nat \<Rightarrow> int \<Rightarrow> 'w native \<Rightarrow> 'w native" where
  "merge_delete L db replace n =
    (if replace \<noteq> 0
     then (case lib L (MergeDocGetName db) n of
             (Inl _, n1) \<Rightarrow> n1
           | (Inr nm, n1) \<Rightarrow> snd (lib L (DeleteDocument db (the_str nm)) n1))
     else n)"

partial_function (option) merge_loop ::
  "'w dbxml \<Rightarrow> nat \<Rightarrow> int \<Rightarrow> c_dbxml_t \<Rightarrow> 'w native \<Rightarrow> (fault + int \<times> c_dbxml_t \<times> 'w native) option" where
  "merge_loop L db replace t n =
    (case lib L (MergeNext db) n of
       (Inl what, n1) \<Rightarrow> Some (Inl (Uncaught what))
     | (Inr b, n1) \<Rightarrow>
        if the_bool b
        then (case lib L (PutDocumentDoc db) (merge_delete L db replace n1) of
                (Inl what, n3) \<Rightarrow> Some (Inr (0, t\<lparr>error := True, errstring := what\<rparr>, n3))
              | (Inr _, n3) \<Rightarrow> merge_loop L db replace t n3)
        else Some (Inr (1, t, n1)))"

declare merge_loop.simps [code]

definition c_dbxml_merge ::
  "'w dbxml \<Rightarrow> nat \<Rightarrow> string \<Rightarrow> int \<Rightarrow> 'w native \<Rightarrow> (fault + int \<times> 'w native) option" where
  "c_dbxml_merge L db dbxmlfile replace n =
    (case handles n db of
       None \<Rightarrow> Some (Inl Dangling)
     | Some t0 \<Rightarrow>
        let t = t0\<lparr>errstring := [], error := False\<rparr>;
            n0 = enter F_merge db n
        in (case lib L (MergeOpenContainer db dbxmlfile) n0 of
              (Inl what, n1) \<Rightarrow> Some (Inl (Uncaught what))
            | (Inr _, n1) \<Rightarrow>
               (case lib L (MergeGetAllDocuments db) n1 of
                  (Inl what, n2) \<Rightarrow> Some (Inl (Uncaught what))
                | (Inr _, n2) \<Rightarrow>
                   (case merge_loop L db replace t n2 of
                      None \<Rightarrow> None
                    | Some (Inl f) \<Rightarrow> Some (Inl f)
                    | Some (Inr (r, t', n3)) \<Rightarrow> Some (Inr (r, store db t' n3))))))"

subsection \<open>Reading\<close>

definition c_dbxml_get ::
  "'w dbxml \<Rightarrow> nat \<Rightarrow> string \<Rightarrow> 'w native \<Rightarrow> fault + string \<times> 'w native" where
  "c_dbxml_get L db nm n =
    (case handles n db of
       None \<Rightarrow> Inl Dangling
     | Some t0 \<Rightarrow>
        let t = t0\<lparr>errstring := [], error := False\<rparr>;
            n0 = enter F_get db n
        in (case lib L (GetDocument db nm) n0 of
              (Inl what, n1) \<Rightarrow> Inr (what, store db (t\<lparr>errstring := what, error := True\<rparr>) n1)
            | (Inr _, n1) \<Rightarrow>
               (case lib L (GetContent db) n1 of
                  (Inl what, n2) \<Rightarrow> Inr (what, store db (t\<lparr>errstring := what, error := True\<rparr>) n2)
                | (Inr v, n2) \<Rightarrow> Inr (the_str v, store db (t\<lparr>result := the_str v\<rparr>) n2))))"

definition c_dbxml_size :: "'w dbxml \<Rightarrow> nat \<Rightarrow> 'w native \<Rightarrow> fault + 64 word \<times> 'w native" where
  "c_dbxml_size L db n =
    (case handles n db of
       None \<Rightarrow> Inl Dangling
     | Some t \<Rightarrow>
        (case lib L (GetNumDocuments db) (enter F_size db n) of
           (Inl what, n1) \<Rightarrow> Inl (Uncaught what)
         | (Inr v, n1) \<Rightarrow> Inr (of_nat (the_nat v), n1)))"

text \<open>
  \<open>new c_dbxml_docs_t\<close> leaves \<open>more\<close> uninitialised; both functions that allocate the
  struct assign it before they return, so the model starts it at \<open>True\<close>.
\<close>

definition c_dbxml_get_all :: "'w dbxml \<Rightarrow> nat \<Rightarrow> 'w native \<Rightarrow> fault + nat \<times> 'w native" where
  "c_dbxml_get_all L db n =
    (case handles n db of
       None \<Rightarrow> Inl Dangling
     | Some t0 \<Rightarrow>
        let t = t0\<lparr>errstring := [], error := False\<rparr>;
            docs = fresh n;
            n0 = enter F_get_all db (n\<lparr>fresh := Suc (fresh n)\<rparr>)
        in (case lib L (GetAllDocuments db docs) n0 of
              (Inl what, n1) \<Rightarrow> Inl (Uncaught what)
            | (Inr _, n1) \<Rightarrow>
               Inr (docs, store_docs docs \<lparr>c_more = True, c_name = [], c_content = []\<rparr>
                            (store db t n1))))"

text \<open>The \<open>try\<close> block of c\_dbxml\_get\_query: \<open>Some what\<close> is the exception caught.\<close>

definition query_try ::
  "'w dbxml \<Rightarrow> nat \<Rightarrow> nat \<Rightarrow> string \<Rightarrow> 'w native \<Rightarrow> string option \<times> 'w native" where
  "query_try L db docs query n =
    (case lib L (CreateQueryContext db docs) n of
       (Inl what, n1) \<Rightarrow> (Some what, n1)
     | (Inr _, n1) \<Rightarrow>
        (case lib L (SetDefaultCollection docs ALIAS) n1 of
           (Inl what, n2) \<Rightarrow> (Some what, n2)
         | (Inr _, n2) \<Rightarrow>
            (case lib L (Query db docs (''collection('' @ [CHR 0x27] @ ALIAS @ [CHR 0x27] @ '')'' @ query)) n2 of
               (Inl what, n3) \<Rightarrow> (Some what, n3)
             | (Inr _, n3) \<Rightarrow> (None, n3))))"

definition c_dbxml_get_query ::
  "'w dbxml \<Rightarrow> nat \<Rightarrow> string \<Rightarrow> 'w native \<Rightarrow> fault + nat \<times> 'w native" where
  "c_dbxml_get_query L db query n =
    (case handles n db of
       None \<Rightarrow> Inl Dangling
     | Some t0 \<Rightarrow>
        let t = t0\<lparr>errstring := [], error := False\<rparr>;
            docs = fresh n;
            d = \<lparr>c_more = True, c_name = [], c_content = []\<rparr>;
            n0 = enter F_get_query db (n\<lparr>fresh := Suc (fresh n)\<rparr>)
        in (case query_try L db docs query n0 of
              (Some what, n1) \<Rightarrow>
                Inr (docs, store_docs docs (d\<lparr>c_more := False\<rparr>)
                             (store db (t\<lparr>error := True, errstring := what\<rparr>) n1))
            | (None, n1) \<Rightarrow> Inr (docs, store_docs docs d (store db t n1))))"

subsection \<open>The cursor\<close>

definition c_dbxml_docs_next :: "'w dbxml \<Rightarrow> nat \<Rightarrow> 'w native \<Rightarrow> fault + int \<times> 'w native" where
  "c_dbxml_docs_next L docs n =
    (case cursors n docs of
       None \<Rightarrow> Inl Dangling
     | Some d \<Rightarrow>
        let n0 = enter F_docs_next docs n in
        if c_more d
        then (case lib L (ResultsNext docs) n0 of
                (Inl what, n1) \<Rightarrow> Inl (Uncaught what)
              | (Inr b, n1) \<Rightarrow>
                 Inr (if the_bool b then 1 else 0,
                      store_docs docs (d\<lparr>c_more := the_bool b, c_name := [], c_content := []\<rparr>) n1))
        else Inr (0, n0))"

definition c_dbxml_docs_name :: "'w dbxml \<Rightarrow> nat \<Rightarrow> 'w native \<Rightarrow> fault + string \<times> 'w native" where
  "c_dbxml_docs_name L docs n =
    (case cursors n docs of
       None \<Rightarrow> Inl Dangling
     | Some d \<Rightarrow>
        let n0 = enter F_docs_name docs n in
        if c_more d \<and> \<not> (length (c_name d) \<noteq> 0)
        then (case lib L (DocGetName docs) n0 of
                (Inl what, n1) \<Rightarrow> Inl (Uncaught what)
              | (Inr v, n1) \<Rightarrow> Inr (the_str v, store_docs docs (d\<lparr>c_name := the_str v\<rparr>) n1))
        else Inr (c_name d, n0))"

definition c_dbxml_docs_content :: "'w dbxml \<Rightarrow> nat \<Rightarrow> 'w native \<Rightarrow> fault + string \<times> 'w native" where
  "c_dbxml_docs_content L docs n =
    (case cursors n docs of
       None \<Rightarrow> Inl Dangling
     | Some d \<Rightarrow>
        let n0 = enter F_docs_content docs n in
        if c_more d \<and> \<not> (length (c_content d) \<noteq> 0)
        then (case lib L (DocGetContent docs) n0 of
                (Inl what, n1) \<Rightarrow> Inl (Uncaught what)
              | (Inr v, n1) \<Rightarrow> Inr (the_str v, store_docs docs (d\<lparr>c_content := the_str v\<rparr>) n1))
        else Inr (c_content d, n0))"

definition c_dbxml_docs_free :: "'w dbxml \<Rightarrow> nat \<Rightarrow> 'w native \<Rightarrow> fault + 'w native" where
  "c_dbxml_docs_free L docs n =
    (case cursors n docs of
       None \<Rightarrow> Inl Dangling
     | Some d \<Rightarrow>
        let n1 = snd (lib L (DeleteDocs docs) (enter F_docs_free docs n))
        in Inr (n1\<lparr>cursors := (cursors n1)(docs := None)\<rparr>))"

section \<open>The Go layer (dbxml.go)\<close>

text \<open>
  A Go \<open>error\<close> is \<open>nil\<close> (\<open>None\<close>), the package variable \<open>errclosed\<close>, or a value
  made by \<open>errors.New\<close> from a message of the native layer.
\<close>

datatype goerror = errclosed | errors_New string

text \<open>
  The two structs. A pointer is the address of the object in the Go heap of the world below;
  \<open>docss\<close> maps an id to the address of the iterator. The mutexes are left out: the model
  runs one call at a time.
\<close>

record Db =
  db_opened :: bool
  db_db :: nat
  db_next :: "64 word"
  db_docss :: "64 word \<rightharpoonup> nat"

record Docs =
  docs_db :: "nat option"
  docs_id :: "64 word"
  docs_started :: bool
  docs_opened :: bool
  docs_docs :: "nat option"

text \<open>
  The process: the native side, the Go heap of connections and of iterators (with the next
  address of each), and the objects on which \<open>runtime.SetFinalizer\<close> has been called.
\<close>

record 'w world =
  native :: "'w native"
  heap_db :: "nat \<rightharpoonup> Db"
  heap_docs :: "nat \<rightharpoonup> Docs"
  new_db :: nat
  new_docs :: nat
  fin_db :: "nat set"
  fin_docs :: "nat set"

definition zero_Docs :: Docs where
  "zero_Docs = \<lparr>docs_db = None, docs_id = 0, docs_started = False, docs_opened = False,
                 docs_docs = None\<rparr>"

subsection \<open>Open and Close\<close>

definition Open :: "'w dbxml \<Rightarrow> string \<Rightarrow> 'w world \<Rightarrow> fault + (nat \<times> goerror option) \<times> 'w world" where
  "Open L filename s =
    (let r = new_db s in
     case c_dbxml_open L filename (native s) of
       (h, n1) \<Rightarrow>
        (case c_dbxml_error h n1 of
           Inl f \<Rightarrow> Inl f
         | Inr (e, n2) \<Rightarrow>
            if e \<noteq> 0
            then (case c_dbxml_errstring h n2 of
                    Inl f \<Rightarrow> Inl f
                  | Inr (msg, n3) \<Rightarrow>
                     (case c_dbxml_free L h n3 of
                        Inl f \<Rightarrow> Inl f
                      | Inr n4 \<Rightarrow>
                         Inr ((r, Some (errors_New msg)),
                              s\<lparr>native := n4,
                                heap_db := (heap_db s)(r \<mapsto>
                                  \<lparr>db_opened = False, db_db = h, db_next = 0, db_docss = Map.empty\<rparr>),
                                new_db := Suc r\<rparr>)))
            else Inr ((r, None),
                      s\<lparr>native := n2,
                        heap_db := (heap_db s)(r \<mapsto>
                          \<lparr>db_opened = True, db_db = h, db_next = 0, db_docss = Map.empty\<rparr>),
                        new_db := Suc r,
                        fin_db := insert r (fin_db s)\<rparr>)))"

text \<open>
  \<open>(*Docs).close\<close>. \<open>delete\<close> of a null pointer does nothing in C++; \<open>docs.db\<close> is
  dereferenced for the deletion from its map.
\<close>

definition Docs_close :: "'w dbxml \<Rightarrow> nat \<Rightarrow> 'w world \<Rightarrow> fault + 'w world" where
  "Docs_close L docs s =
    (case heap_docs s docs of
       None \<Rightarrow> Inl NilDeref
     | Some d \<Rightarrow>
        if docs_opened d
        then (case (case docs_docs d of
                      None \<Rightarrow> Inr (native s)
                    | Some c \<Rightarrow> c_dbxml_docs_free L c (native s)) of
                Inl f \<Rightarrow> Inl f
              | Inr n1 \<Rightarrow>
                 (case docs_db d of
                    None \<Rightarrow> Inl NilDeref
                  | Some r \<Rightarrow>
                     (case heap_db s r of
                        None \<Rightarrow> Inl NilDeref
                      | Some db \<Rightarrow>
                         Inr (s\<lparr>native := n1,
                                heap_db := (heap_db s)(r \<mapsto>
                                  db\<lparr>db_docss := (db_docss db)(docs_id d := None)\<rparr>),
                                heap_docs := (heap_docs s)(docs \<mapsto>
                                  d\<lparr>docs_opened := False, docs_db := None\<rparr>)\<rparr>))))
        else Inr s)"

definition Docs_Close :: "'w dbxml \<Rightarrow> nat \<Rightarrow> 'w world \<Rightarrow> fault + 'w world" where
  "Docs_Close L docs s = Docs_close L docs s"

lemma Docs_close_next:
  "Docs_close L docs s = Inr s' \<Longrightarrow>
   map_option db_next (heap_db s' r) = map_option db_next (heap_db s r)"
  by (auto simp: Docs_close_def split: option.splits if_splits sum.splits)

lemma word_inc_unat:
  fixes i k :: "64 word"
  assumes "i < k"
  shows "unat (i + 1) = Suc (unat i)"
proof -
  have "unat i < unat k" using assms by (simp add: word_less_nat_alt)
  moreover have "unat k < 2 ^ LENGTH(64)" by (rule unsigned_less)
  ultimately have "unat i + unat (1 :: 64 word) < 2 ^ LENGTH(64)" by simp
  then have "unat (i + 1) = unat i + unat (1 :: 64 word)" by (simp only: unat_add_lem)
  then show ?thesis by simp
qed

lemma word_loop_measure:
  fixes i k :: "64 word"
  shows "i < k \<Longrightarrow> unat k - unat (i + 1) < unat k - unat i"
  by (simp add: word_inc_unat word_less_nat_alt)

function Close_loop :: "'w dbxml \<Rightarrow> nat \<Rightarrow> 64 word \<Rightarrow> 'w world \<Rightarrow> fault + 'w world" where
  "Close_loop L r i s =
    (case heap_db s r of
       None \<Rightarrow> Inl NilDeref
     | Some db \<Rightarrow>
        if i < db_next db
        then (case db_docss db i of
                Some docs \<Rightarrow>
                  (case Docs_Close L docs s of
                     Inl f \<Rightarrow> Inl f
                   | Inr s' \<Rightarrow> Close_loop L r (i + 1) s')
              | None \<Rightarrow> Close_loop L r (i + 1) s)
        else Inr s)"
  by pat_completeness auto
termination
proof (relation "measure (\<lambda>(L, r, i, s).
          case heap_db s r of None \<Rightarrow> 0 | Some db \<Rightarrow> unat (db_next db) - unat i)",
       goal_cases)
  case 1
  show ?case by simp
next
  case (2 L r i s db)
  then show ?case by (simp add: word_loop_measure)
next
  case (3 L r i s db docs s')
  from 3(4) have "map_option db_next (heap_db s' r) = map_option db_next (heap_db s r)"
    unfolding Docs_Close_def by (rule Docs_close_next)
  with 3(1) obtain db' where "heap_db s' r = Some db'" "db_next db' = db_next db"
    by (cases "heap_db s' r") auto
  with 3(1,2) show ?case by (simp add: word_loop_measure)
qed

declare Close_loop.simps [simp del]

definition Db_Close :: "'w dbxml \<Rightarrow> nat \<Rightarrow> 'w world \<Rightarrow> fault + 'w world" where
  "Db_Close L r s =
    (case heap_db s r of
       None \<Rightarrow> Inl NilDeref
     | Some db \<Rightarrow>
        if db_opened db
        then (case Close_loop L r 0 s of
                Inl f \<Rightarrow> Inl f
              | Inr s1 \<Rightarrow>
                 (case c_dbxml_free L (db_db db) (native s1) of
                    Inl f \<Rightarrow> Inl f
                  | Inr n2 \<Rightarrow>
                     (case heap_db s1 r of
                        None \<Rightarrow> Inl NilDeref
                      | Some db1 \<Rightarrow>
                         Inr (s1\<lparr>native := n2,
                                 heap_db := (heap_db s1)(r \<mapsto> db1\<lparr>db_opened := False\<rparr>)\<rparr>))))
        else Inr s)"

subsection \<open>Write\<close>

definition Db_PutFile ::
  "'w dbxml \<Rightarrow> nat \<Rightarrow> string \<Rightarrow> bool \<Rightarrow> 'w world \<Rightarrow> fault + goerror option \<times> 'w world" where
  "Db_PutFile L r filename replace s =
    (case heap_db s r of
       None \<Rightarrow> Inl NilDeref
     | Some db \<Rightarrow>
        if \<not> db_opened db then Inr (Some errclosed, s)
        else let repl = (if replace then 1 else 0) in
          (case c_dbxml_put_file L (db_db db) filename repl (native s) of
             Inl f \<Rightarrow> Inl f
           | Inr (ret, n1) \<Rightarrow>
              if ret = 0
              then (case c_dbxml_errstring (db_db db) n1 of
                      Inl f \<Rightarrow> Inl f
                    | Inr (msg, n2) \<Rightarrow> Inr (Some (errors_New msg), s\<lparr>native := n2\<rparr>))
              else Inr (None, s\<lparr>native := n1\<rparr>)))"

definition Db_PutXml ::
  "'w dbxml \<Rightarrow> nat \<Rightarrow> string \<Rightarrow> string \<Rightarrow> bool \<Rightarrow> 'w world \<Rightarrow> fault + goerror option \<times> 'w world" where
  "Db_PutXml L r nm data replace s =
    (case heap_db s r of
       None \<Rightarrow> Inl NilDeref
     | Some db \<Rightarrow>
        if \<not> db_opened db then Inr (Some errclosed, s)
        else let repl = (if replace then 1 else 0) in
          (case c_dbxml_put_xml L (db_db db) nm data repl (native s) of
             Inl f \<Rightarrow> Inl f
           | Inr (ret, n1) \<Rightarrow>
              if ret = 0
              then (case c_dbxml_errstring (db_db db) n1 of
                      Inl f \<Rightarrow> Inl f
                    | Inr (msg, n2) \<Rightarrow> Inr (Some (errors_New msg), s\<lparr>native := n2\<rparr>))
              else Inr (None, s\<lparr>native := n1\<rparr>)))"

definition Db_Merge ::
  "'w dbxml \<Rightarrow> nat \<Rightarrow> string \<Rightarrow> bool \<Rightarrow> 'w world \<Rightarrow> (fault + goerror option \<times> 'w world) option" where
  "Db_Merge L r filename replace s =
    (case heap_db s r of
       None \<Rightarrow> Some (Inl NilDeref)
     | Some db \<Rightarrow>
        if \<not> db_opened db then Some (Inr (Some errclosed, s))
        else let repl = (if replace then 1 else 0) in
          (case c_dbxml_merge L (db_db db) filename repl (native s) of
             None \<Rightarrow> None
           | Some (Inl f) \<Rightarrow> Some (Inl f)
           | Some (Inr (ret, n1)) \<Rightarrow>
              if ret = 0
              then (case c_dbxml_errstring (db_db db) n1 of
                      Inl f \<Rightarrow> Some (Inl f)
                    | Inr (msg, n2) \<Rightarrow> Some (Inr (Some (errors_New msg), s\<lparr>native := n2\<rparr>)))
              else Some (Inr (None, s\<lparr>native := n1\<rparr>))))"

definition Db_Remove ::
  "'w dbxml \<Rightarrow> nat \<Rightarrow> string \<Rightarrow> 'w world \<Rightarrow> fault + goerror option \<times> 'w world" where
  "Db_Remove L r nm s =
    (case heap_db s r of
       None \<Rightarrow> Inl NilDeref
     | Some db \<Rightarrow>
        if \<not> db_opened db then Inr (Some errclosed, s)
        else
          (case c_dbxml_remove L (db_db db) nm (native s) of
             Inl f \<Rightarrow> Inl f
           | Inr (ret, n1) \<Rightarrow>
              if ret = 0
              then (case c_dbxml_errstring (db_db db) n1 of
                      Inl f \<Rightarrow> Inl f
                    | Inr (msg, n2) \<Rightarrow> Inr (Some (errors_New msg), s\<lparr>native := n2\<rparr>))
              else Inr (None, s\<lparr>native := n1\<rparr>)))"

subsection \<open>Read\<close>

definition Db_Get ::
  "'w dbxml \<Rightarrow> nat \<Rightarrow> string \<Rightarrow> 'w world \<Rightarrow> fault + (string \<times> goerror option) \<times> 'w world" where
  "Db_Get L r nm s =
    (case heap_db s r of
       None \<Rightarrow> Inl NilDeref
     | Some db \<Rightarrow>
        if \<not> db_opened db then Inr (([], Some errclosed), s)
        else
          (case c_dbxml_get L (db_db db) nm (native s) of
             Inl f \<Rightarrow> Inl f
           | Inr (str, n1) \<Rightarrow>
              (case c_dbxml_error (db_db db) n1 of
                 Inl f \<Rightarrow> Inl f
               | Inr (e, n2) \<Rightarrow>
                  if e \<noteq> 0 then Inr (([], Some (errors_New str)), s\<lparr>native := n2\<rparr>)
                  else Inr ((str, None), s\<lparr>native := n2\<rparr>))))"

definition Db_Size ::
  "'w dbxml \<Rightarrow> nat \<Rightarrow> 'w world \<Rightarrow> fault + (64 word \<times> goerror option) \<times> 'w world" where
  "Db_Size L r s =
    (case heap_db s r of
       None \<Rightarrow> Inl NilDeref
     | Some db \<Rightarrow>
        if \<not> db_opened db then Inr ((0, Some errclosed), s)
        else
          (case c_dbxml_size L (db_db db) (native s) of
             Inl f \<Rightarrow> Inl f
           | Inr (k, n1) \<Rightarrow> Inr ((k, None), s\<lparr>native := n1\<rparr>)))"

text \<open>
  \<open>All\<close> and \<open>Query\<close> allocate the \<open>Docs\<close> before anything else; it is the object
  they return on every path.
\<close>

definition Db_All ::
  "'w dbxml \<Rightarrow> nat \<Rightarrow> 'w world \<Rightarrow> fault + (nat \<times> goerror option) \<times> 'w world" where
  "Db_All L r s =
    (let docs = new_docs s;
         s0 = s\<lparr>heap_docs := (heap_docs s)(docs \<mapsto> zero_Docs), new_docs := Suc docs\<rparr>
     in case heap_db s0 r of
          None \<Rightarrow> Inl NilDeref
        | Some db \<Rightarrow>
           if \<not> db_opened db then Inr ((docs, Some errclosed), s0)
           else
             (case c_dbxml_get_all L (db_db db) (native s0) of
                Inl f \<Rightarrow> Inl f
              | Inr (c, n1) \<Rightarrow>
                 Inr ((docs, None),
                      s0\<lparr>native := n1,
                         heap_db := (heap_db s0)(r \<mapsto>
                           db\<lparr>db_next := db_next db + 1,
                              db_docss := (db_docss db)(db_next db \<mapsto> docs)\<rparr>),
                         heap_docs := (heap_docs s0)(docs \<mapsto>
                           zero_Docs\<lparr>docs_docs := Some c, docs_db := Some r,
                                     docs_id := db_next db, docs_opened := True\<rparr>),
                         fin_docs := insert docs (fin_docs s0)\<rparr>)))"

definition Db_Query ::
  "'w dbxml \<Rightarrow> nat \<Rightarrow> string \<Rightarrow> 'w world \<Rightarrow> fault + (nat \<times> goerror option) \<times> 'w world" where
  "Db_Query L r query s =
    (let docs = new_docs s;
         s0 = s\<lparr>heap_docs := (heap_docs s)(docs \<mapsto> zero_Docs), new_docs := Suc docs\<rparr>
     in case heap_db s0 r of
          None \<Rightarrow> Inl NilDeref
        | Some db \<Rightarrow>
           if \<not> db_opened db then Inr ((docs, Some errclosed), s0)
           else
             (case c_dbxml_get_query L (db_db db) query (native s0) of
                Inl f \<Rightarrow> Inl f
              | Inr (c, n1) \<Rightarrow>
                 (case c_dbxml_error (db_db db) n1 of
                    Inl f \<Rightarrow> Inl f
                  | Inr (e, n2) \<Rightarrow>
                     if e \<noteq> 0
                     then (case c_dbxml_errstring (db_db db) n2 of
                             Inl f \<Rightarrow> Inl f
                           | Inr (msg, n3) \<Rightarrow>
                              Inr ((docs, Some (errors_New msg)),
                                   s0\<lparr>native := n3,
                                      heap_docs := (heap_docs s0)(docs \<mapsto>
                                        zero_Docs\<lparr>docs_docs := Some c\<rparr>)\<rparr>))
                     else
                       Inr ((docs, None),
                            s0\<lparr>native := n2,
                               heap_db := (heap_db s0)(r \<mapsto>
                                 db\<lparr>db_next := db_next db + 1,
                                    db_docss := (db_docss db)(db_next db \<mapsto> docs)\<rparr>),
                               heap_docs := (heap_docs s0)(docs \<mapsto>
                                 zero_Docs\<lparr>docs_docs := Some c, docs_db := Some r,
                                           docs_id := db_next db, docs_opened := True\<rparr>),
                               fin_docs := insert docs (fin_docs s0)\<rparr>))))"

subsection \<open>The iterator\<close>

definition Docs_Next :: "'w dbxml \<Rightarrow> nat \<Rightarrow> 'w world \<Rightarrow> fault + bool \<times> 'w world" where
  "Docs_Next L docs s =
    (case heap_docs s docs of
       None \<Rightarrow> Inl NilDeref
     | Some d \<Rightarrow>
        if \<not> docs_opened d then Inr (False, s)
        else
          (case docs_docs d of
             None \<Rightarrow> Inl NilDeref
           | Some c \<Rightarrow>
              (case c_dbxml_docs_next L c (native s) of
                 Inl f \<Rightarrow> Inl f
               | Inr (ret, n1) \<Rightarrow>
                  let s1 = s\<lparr>native := n1,
                             heap_docs := (heap_docs s)(docs \<mapsto> d\<lparr>docs_started := True\<rparr>)\<rparr>
                  in if ret = 0
                     then (case Docs_close L docs s1 of
                             Inl f \<Rightarrow> Inl f
                           | Inr s2 \<Rightarrow> Inr (False, s2))
                     else Inr (True, s1))))"

definition Docs_Name :: "'w dbxml \<Rightarrow> nat \<Rightarrow> 'w world \<Rightarrow> fault + string \<times> 'w world" where
  "Docs_Name L docs s =
    (case heap_docs s docs of
       None \<Rightarrow> Inl NilDeref
     | Some d \<Rightarrow>
        if \<not> (docs_opened d \<and> docs_started d) then Inr ([], s)
        else
          (case docs_docs d of
             None \<Rightarrow> Inl NilDeref
           | Some c \<Rightarrow>
              (case c_dbxml_docs_name L c (native s) of
                 Inl f \<Rightarrow> Inl f
               | Inr (str, n1) \<Rightarrow> Inr (str, s\<lparr>native := n1\<rparr>))))"

definition Docs_Content :: "'w dbxml \<Rightarrow> nat \<Rightarrow> 'w world \<Rightarrow> fault + string \<times> 'w world" where
  "Docs_Content L docs s =
    (case heap_docs s docs of
       None \<Rightarrow> Inl NilDeref
     | Some d \<Rightarrow>
        if \<not> (docs_opened d \<and> docs_started d) then Inr ([], s)
        else
          (case docs_docs d of
             None \<Rightarrow> Inl NilDeref
           | Some c \<Rightarrow>
              (case c_dbxml_docs_content L c (native s) of
                 Inl f \<Rightarrow> Inl f
               | Inr (str, n1) \<Rightarrow> Inr (str, s\<lparr>native := n1\<rparr>))))"

section \<open>Programs over the interface\<close>

text \<open>
  A caller of the package makes one call after the other. \<open>exec\<close> is the world after a call
  has returned, \<open>None\<close> when it does not return (a fault, or a merge that never ends);
  \<open>run\<close> makes the calls of a list in turn. Connections and iterators are named by their
  addresses, which \<open>Open\<close>, \<open>All\<close> and \<open>Query\<close> hand out in order from \<open>0\<close>.
\<close>

datatype action =
    AOpen string
  | AClose nat
  | APutFile nat string bool
  | APutXml nat string string bool
  | AMerge nat string bool
  | ARemove nat string
  | AGet nat string
  | ASize nat
  | AAll nat
  | AQuery nat string
  | ANext nat
  | AName nat
  | AContent nat
  | ADocsClose nat

definition returned :: "fault + 'a \<times> 's \<Rightarrow> 's option" where
  "returned x = (case x of Inl f \<Rightarrow> None | Inr (v, s) \<Rightarrow> Some s)"

fun exec :: "'w dbxml \<Rightarrow> action \<Rightarrow> 'w world \<Rightarrow> 'w world option" where
  "exec L (AOpen filename) s = returned (Open L filename s)"
| "exec L (AClose r) s = (case Db_Close L r s of Inl f \<Rightarrow> None | Inr s' \<Rightarrow> Some s')"
| "exec L (APutFile r filename replace) s = returned (Db_PutFile L r filename replace s)"
| "exec L (APutXml r nm data replace) s = returned (Db_PutXml L r nm data replace s)"
| "exec L (AMerge r filename replace) s =
     (case Db_Merge L r filename replace s of None \<Rightarrow> None | Some x \<Rightarrow> returned x)"
| "exec L (ARemove r nm) s = returned (Db_Remove L r nm s)"
| "exec L (AGet r nm) s = returned (Db_Get L r nm s)"
| "exec L (ASize r) s = returned (Db_Size L r s)"
| "exec L (AAll r) s = returned (Db_All L r s)"
| "exec L (AQuery r query) s = returned (Db_Query L r query s)"
| "exec L (ANext docs) s = returned (Docs_Next L docs s)"
| "exec L (AName docs) s = returned (Docs_Name L docs s)"
| "exec L (AContent docs) s = returned (Docs_Content L docs s)"
| "exec L (ADocsClose docs) s = (case Docs_Close L docs s of Inl f \<Rightarrow> None | Inr s' \<Rightarrow> Some s')"

fun run :: "'w dbxml \<Rightarrow> action list \<Rightarrow> 'w world \<Rightarrow> 'w world option" where
  "run L [] s = Some s"
| "run L (a # as) s = (case exec L a s of None \<Rightarrow> None | Some s' \<Rightarrow> run L as s')"

text \<open>The process before its first call: no struct and no object anywhere.\<close>

definition boot :: "'w \<Rightarrow> 'w world" where
  "boot w =
    \<lparr>native = \<lparr>engine = w, trace = [], handles = Map.empty, cursors = Map.empty, fresh = 1\<rparr>,
     heap_db = Map.empty, heap_docs = Map.empty, new_db = 0, new_docs = 0,
     fin_db = {}, fin_docs = {}\<rparr>"

text \<open>
  An engine for concrete runs: its state is the list of the outcomes of the calls still to
  come, whatever the calls are; when the list is used up every call returns.
\<close>

definition scripted :: "(string + libval) list dbxml" where
  "scripted c w = (case w of [] \<Rightarrow> (Inr VUnit, []) | x # xs \<Rightarrow> (x, xs))"

text \<open>The exception with which the last library call of a trace ended, if it ended so.\<close>

definition thrown :: "event list \<Rightarrow> string option" where
  "thrown tr =
    (if tr = [] then None
     else (case last tr of Lib c (Inl what) \<Rightarrow> Some what | _ \<Rightarrow> None))"

text \<open>
  The error state of a handle, and the error state that a trace calls for: set, with the
  message, exactly when the last library call of the trace threw.
\<close>

definition error_state :: "'w native \<Rightarrow> nat \<Rightarrow> (bool \<times> string) option" where
  "error_state n db = map_option (\<lambda>t. (error t, errstring t)) (handles n db)"

definition reported :: "event list \<Rightarrow> bool \<times> string" where
  "reported tr = (case thrown tr of Some what \<Rightarrow> (True, what) | None \<Rightarrow> (False, []))"

text \<open>Worlds for concrete runs.\<close>

definition opened_ok :: "(string + libval) list" where
  "opened_ok = [Inr VUnit, Inr (VBool False), Inr VUnit, Inr (VBool True)]"

definition stale_native :: "'w \<Rightarrow> 'w native" where
  "stale_native w =
    \<lparr>engine = w, trace = [],
     handles = [1 \<mapsto> \<lparr>config_readOnly = False, error = True, errstring = ''stale'', result = []\<rparr>],
     cursors = Map.empty, fresh = 2\<rparr>"

definition opened_world :: "(string + libval) list \<Rightarrow> (string + libval) list world" where
  "opened_world script =
    (case Open scripted ''db'' (boot (opened_ok @ script)) of
       Inr (x, s) \<Rightarrow> s
     | Inl f \<Rightarrow> boot script)"

section \<open>Invariants and frames\<close>

text \<open>Two native states with the same structs at the same addresses.\<close>

definition shape :: "'w native \<Rightarrow> nat set \<times> nat set \<times> nat" where
  "shape n = (dom (handles n), dom (cursors n), fresh n)"

definition same_shape :: "'w native \<Rightarrow> 'w native \<Rightarrow> bool" where
  "same_shape n n' \<longleftrightarrow> shape n' = shape n"

text \<open>
  A call that leaves the Go side as it is and allocates or frees no struct of the native
  side.
\<close>

definition quiet :: "'w world \<Rightarrow> 'w world \<Rightarrow> bool" where
  "quiet s s' \<longleftrightarrow>
     heap_db s' = heap_db s \<and> heap_docs s' = heap_docs s \<and> new_db s' = new_db s \<and>
     new_docs s' = new_docs s \<and> fin_db s' = fin_db s \<and> fin_docs s' = fin_docs s \<and>
     same_shape (native s) (native s')"

text \<open>
  What holds of every world a program can reach. Addresses in use are below the next
  address to hand out.
\<close>

definition inv_alloc :: "'w world \<Rightarrow> bool" where
  "inv_alloc s \<longleftrightarrow>
     (\<forall>r. r \<in> dom (heap_db s) \<longrightarrow> r < new_db s) \<and>
     (\<forall>d. d \<in> dom (heap_docs s) \<longrightarrow> d < new_docs s) \<and>
     (\<forall>h. h \<in> dom (handles (native s)) \<longrightarrow> h < fresh (native s)) \<and>
     (\<forall>c. c \<in> dom (cursors (native s)) \<longrightarrow> c < fresh (native s))"

text \<open>
  An entry of the map of a connection is an id below the connection's next id, and an open
  iterator that has this connection as its owner and this id as its id.
\<close>

definition inv_children :: "'w world \<Rightarrow> bool" where
  "inv_children s \<longleftrightarrow>
     (\<forall>r db i d. heap_db s r = Some db \<longrightarrow> db_docss db i = Some d \<longrightarrow>
        i < db_next db \<and>
        (\<exists>x. heap_docs s d = Some x \<and> docs_opened x \<and> docs_db x = Some r \<and> docs_id x = i))"

text \<open>An open iterator is in the map of its owner, under its id, and the owner is open.\<close>

definition inv_owner :: "'w world \<Rightarrow> bool" where
  "inv_owner s \<longleftrightarrow>
     (\<forall>d x. heap_docs s d = Some x \<longrightarrow> docs_opened x \<longrightarrow>
        (\<exists>r db. docs_db x = Some r \<and> heap_db s r = Some db \<and> db_opened db \<and>
                db_docss db (docs_id x) = Some d))"

text \<open>
  An open connection has a handle and an open iterator a cursor, which are there on the
  native side and are not shared.
\<close>

definition inv_live :: "'w world \<Rightarrow> bool" where
  "inv_live s \<longleftrightarrow>
     (\<forall>r db. heap_db s r = Some db \<longrightarrow> db_opened db \<longrightarrow> db_db db \<in> dom (handles (native s))) \<and>
     (\<forall>r r' db db'. heap_db s r = Some db \<longrightarrow> heap_db s r' = Some db' \<longrightarrow>
        db_opened db \<longrightarrow> db_opened db' \<longrightarrow> db_db db = db_db db' \<longrightarrow> r = r') \<and>
     (\<forall>d x. heap_docs s d = Some x \<longrightarrow> docs_opened x \<longrightarrow>
        (\<exists>c. docs_docs x = Some c \<and> c \<in> dom (cursors (native s)))) \<and>
     (\<forall>d d' x x'. heap_docs s d = Some x \<longrightarrow> heap_docs s d' = Some x' \<longrightarrow>
        docs_opened x \<longrightarrow> docs_opened x' \<longrightarrow> docs_docs x = docs_docs x' \<longrightarrow> d = d')"

definition wf :: "'w world \<Rightarrow> bool" where
  "wf s \<longleftrightarrow> inv_alloc s \<and> inv_children s \<and> inv_owner s \<and> inv_live s"

text \<open>
  The world after \<open>(*Docs).close\<close> on the open iterator \<open>x\<close> at \<open>d\<close>, with owner \<open>db\<close> at
  \<open>r\<close> and the native side \<open>n'\<close>.
\<close>

definition closed_docs :: "nat \<Rightarrow> Docs \<Rightarrow> nat \<Rightarrow> Db \<Rightarrow> 'w native \<Rightarrow> 'w world \<Rightarrow> 'w world" where
  "closed_docs d x r db n' s =
     s\<lparr>native := n',
       heap_db := (heap_db s)(r \<mapsto> db\<lparr>db_docss := (db_docss db)(docs_id x := None)\<rparr>),
       heap_docs := (heap_docs s)(d \<mapsto> x\<lparr>docs_opened := False, docs_db := None\<rparr>)\<rparr>"

text \<open>
  What the loop of \<open>(*Db).Close\<close> leaves of a world: the open iterators of the connection
  are closed, their cursors are gone, and the map of the connection is empty.
\<close>

definition close_owned :: "nat \<Rightarrow> Docs \<Rightarrow> Docs" where
  "close_owned r y =
     (if docs_opened y \<and> docs_db y = Some r then y\<lparr>docs_opened := False, docs_db := None\<rparr> else y)"

definition owned_cursors :: "nat \<Rightarrow> 'w world \<Rightarrow> nat set" where
  "owned_cursors r s =
     {c. \<exists>d y. heap_docs s d = Some y \<and> docs_opened y \<and> docs_db y = Some r \<and> docs_docs y = Some c}"

definition loop_post :: "nat \<Rightarrow> 'w world \<Rightarrow> 'w world \<Rightarrow> bool" where
  "loop_post r s s' \<longleftrightarrow>
     (\<forall>r'. heap_db s' r' =
         (if r' = r then map_option (\<lambda>db. db\<lparr>db_docss := Map.empty\<rparr>) (heap_db s r)
          else heap_db s r')) \<and>
     (\<forall>d. heap_docs s' d = map_option (close_owned r) (heap_docs s d)) \<and>
     dom (handles (native s')) = dom (handles (native s)) \<and>
     dom (cursors (native s')) = dom (cursors (native s)) - owned_cursors r s \<and>
     fresh (native s') = fresh (native s) \<and>
     new_db s' = new_db s \<and> new_docs s' = new_docs s \<and>
     fin_db s' = fin_db s \<and> fin_docs s' = fin_docs s"

text \<open>The world after the connection \<open>db\<close> at \<open>r\<close> has been marked as closed.\<close>

definition closed_db :: "nat \<Rightarrow> Db \<Rightarrow> 'w native \<Rightarrow> 'w world \<Rightarrow> 'w world" where
  "closed_db r db n' s =
     s\<lparr>native := n', heap_db := (heap_db s)(r \<mapsto> db\<lparr>db_opened := False\<rparr>)\<rparr>"

text \<open>What Close leaves of a world.\<close>

definition close_post :: "nat \<Rightarrow> 'w world \<Rightarrow> 'w world \<Rightarrow> bool" where
  "close_post r s s' \<longleftrightarrow>
     (\<forall>r'. heap_db s' r' =
         (if r' = r
          then map_option (\<lambda>db. db\<lparr>db_docss := Map.empty, db_opened := False\<rparr>) (heap_db s r)
          else heap_db s r')) \<and>
     (\<forall>d. heap_docs s' d = map_option (close_owned r) (heap_docs s d)) \<and>
     dom (handles (native s')) = dom (handles (native s)) - db_db ` set_option (heap_db s r) \<and>
     dom (cursors (native s')) = dom (cursors (native s)) - owned_cursors r s \<and>
     fresh (native s') = fresh (native s) \<and>
     new_db s' = new_db s \<and> new_docs s' = new_docs s \<and>
     fin_db s' = fin_db s \<and> fin_docs s' = fin_docs s"

text \<open>A new connection.\<close>

definition added_db :: "Db \<Rightarrow> 'w native \<Rightarrow> nat set \<Rightarrow> 'w world \<Rightarrow> 'w world" where
  "added_db db n' F s =
     s\<lparr>native := n', heap_db := (heap_db s)(new_db s \<mapsto> db), new_db := Suc (new_db s),
       fin_db := F\<rparr>"

text \<open>A new iterator: one that is not registered (and not open), and one that is.\<close>

definition added_docs :: "Docs \<Rightarrow> 'w native \<Rightarrow> 'w world \<Rightarrow> 'w world" where
  "added_docs y n' s =
     s\<lparr>native := n', heap_docs := (heap_docs s)(new_docs s \<mapsto> y), new_docs := Suc (new_docs s)\<rparr>"

definition registered :: "nat \<Rightarrow> Db \<Rightarrow> nat \<Rightarrow> 'w native \<Rightarrow> 'w world \<Rightarrow> 'w world" where
  "registered r db c n' s =
     s\<lparr>native := n',
       heap_db := (heap_db s)(r \<mapsto>
         db\<lparr>db_next := db_next db + 1, db_docss := (db_docss db)(db_next db \<mapsto> new_docs s)\<rparr>),
       heap_docs := (heap_docs s)(new_docs s \<mapsto>
         \<lparr>docs_db = Some r, docs_id = db_next db, docs_started = False, docs_opened = True,
          docs_docs = Some c\<rparr>),
       new_docs := Suc (new_docs s),
       fin_docs := insert (new_docs s) (fin_docs s)\<rparr>"

text \<open>An iterator on which Next has been called.\<close>

definition started :: "nat \<Rightarrow> Docs \<Rightarrow> 'w native \<Rightarrow> 'w world \<Rightarrow> 'w world" where
  "started d x n' s =
     s\<lparr>native := n', heap_docs := (heap_docs s)(d \<mapsto> x\<lparr>docs_started := True\<rparr>)\<rparr>"

text \<open>No connection has handed out more than \<open>k\<close> ids.\<close>

definition bounded :: "nat \<Rightarrow> 'w world \<Rightarrow> bool" where
  "bounded k s \<longleftrightarrow> (\<forall>r db. heap_db s r = Some db \<longrightarrow> unat (db_next db) \<le> k)"

text \<open>From one world to the next, a counter of ids stays, or goes up by one, or is new.\<close>

definition grows :: "'w world \<Rightarrow> 'w world \<Rightarrow> bool" where
  "grows s s' \<longleftrightarrow>
     (\<forall>r db'. heap_db s' r = Some db' \<longrightarrow>
        db_next db' = 0 \<or>
        (\<exists>db. heap_db s r = Some db \<and> (db_next db' = db_next db \<or> db_next db' = db_next db + 1)))"

text \<open>
  What every call keeps, in any world: addresses are handed out upwards, and an object that
  is closed stays closed (an iterator that is closed is never written again).
\<close>

definition keeps :: "'w world \<Rightarrow> 'w world \<Rightarrow> bool" where
  "keeps s s' \<longleftrightarrow>
     new_db s \<le> new_db s' \<and> new_docs s \<le> new_docs s' \<and>
     (\<forall>r. r \<in> dom (heap_db s') \<longrightarrow> r \<in> dom (heap_db s) \<or> r < new_db s') \<and>
     (\<forall>d. d \<in> dom (heap_docs s') \<longrightarrow> d \<in> dom (heap_docs s) \<or> d < new_docs s') \<and>
     (\<forall>d. d \<in> fin_docs s' \<longrightarrow> d \<in> fin_docs s \<or> d < new_docs s') \<and>
     (\<forall>r db. r < new_db s \<longrightarrow> heap_db s r = Some db \<longrightarrow> \<not> db_opened db \<longrightarrow>
        (\<exists>db'. heap_db s' r = Some db' \<and> \<not> db_opened db')) \<and>
     (\<forall>d x. d < new_docs s \<longrightarrow> heap_docs s d = Some x \<longrightarrow> \<not> docs_opened x \<longrightarrow>
        heap_docs s' d = Some x)"

text \<open>The addresses of the Go side that are in use are below the next ones.\<close>

definition alloc_ok :: "'w world \<Rightarrow> bool" where
  "alloc_ok s \<longleftrightarrow>
     (\<forall>r. r \<in> dom (heap_db s) \<longrightarrow> r < new_db s) \<and>
     (\<forall>d. d \<in> dom (heap_docs s) \<longrightarrow> d < new_docs s) \<and>
     (\<forall>d. d \<in> fin_docs s \<longrightarrow> d < new_docs s)"

text \<open>An engine that opens a container and then fails to parse a query.\<close>

definition query_script :: "(string + libval) list" where
  "query_script = opened_ok @ [Inr VUnit, Inr VUnit, Inr VUnit, Inl ''XQuery parse error'']"

text \<open>
  A call other than \<open>Next\<close> on an iterator does not set its \<open>started\<close> field: if the
  iterator is started after the call, it was before.
\<close>

definition unstarted :: "nat \<Rightarrow> 'w world \<Rightarrow> 'w world \<Rightarrow> bool" where
  "unstarted d s s' \<longleftrightarrow>
     (\<forall>x'. heap_docs s' d = Some x' \<longrightarrow> docs_started x' \<longrightarrow>
        (\<exists>x. heap_docs s d = Some x \<and> docs_started x))"

text \<open>
  The map \<open>docss\<close> of the connection at an address, and the calls in which the package
  writes to such a map: \<open>All\<close> and \<open>Query\<close> (an insertion), and the calls that reach
  \<open>(*Docs).close\<close> (a deletion).
\<close>

definition children :: "'w world \<Rightarrow> nat \<Rightarrow> (64 word \<rightharpoonup> nat) option" where
  "children s r = map_option db_docss (heap_db s r)"

fun writes_children :: "action \<Rightarrow> bool" where
  "writes_children (AClose r) = True"
| "writes_children (AAll r) = True"
| "writes_children (AQuery r q) = True"
| "writes_children (ANext d) = True"
| "writes_children (ADocsClose d) = True"
| "writes_children a = False"

text \<open>
  Of a stretch of the trace: how many times an update context has been created (each round
  of the loop of \<open>c_dbxml_open\<close> begins with it), and the read-only flags of the
  configurations with which a container has been opened.
\<close>

definition attempts :: "event list \<Rightarrow> nat" where
  "attempts tr =
     length (filter (\<lambda>e. case e of Lib (CreateUpdateContext h) r \<Rightarrow> True | _ \<Rightarrow> False) tr)"

definition opens :: "event list \<Rightarrow> bool list" where
  "opens tr =
     concat (map (\<lambda>e. case e of Lib (OpenContainer h f ro) r \<Rightarrow> [ro] | _ \<Rightarrow> []) tr)"

text \<open>
  The loop of c\_dbxml\_merge cut off: \<open>merge_rounds k\<close> is the loop as long as it calls
  \<open>it.next\<close> at most \<open>k\<close> times, and \<open>None\<close> when it would call it once more.
  \<open>merge_within k\<close> is c\_dbxml\_merge with this loop.
\<close>

fun merge_rounds ::
  "nat \<Rightarrow> 'w dbxml \<Rightarrow> nat \<Rightarrow> int \<Rightarrow> c_dbxml_t \<Rightarrow> 'w native \<Rightarrow> (fault + int \<times> c_dbxml_t \<times> 'w native) option" where
  "merge_rounds 0 L db replace t n = None"
| "merge_rounds (Suc k) L db replace t n =
    (case lib L (MergeNext db) n of
       (Inl what, n1) \<Rightarrow> Some (Inl (Uncaught what))
     | (Inr b, n1) \<Rightarrow>
        if the_bool b
        then (case lib L (PutDocumentDoc db) (merge_delete L db replace n1) of
                (Inl what, n3) \<Rightarrow> Some (Inr (0, t\<lparr>error := True, errstring := what\<rparr>, n3))
              | (Inr _, n3) \<Rightarrow> merge_rounds k L db replace t n3)
        else Some (Inr (1, t, n1)))"

definition merge_within ::
  "nat \<Rightarrow> 'w dbxml \<Rightarrow> nat \<Rightarrow> string \<Rightarrow> int \<Rightarrow> 'w native \<Rightarrow> (fault + int \<times> 'w native) option" where
  "merge_within k L db dbxmlfile replace n =
    (case handles n db of
       None \<Rightarrow> Some (Inl Dangling)
     | Some t0 \<Rightarrow>
        let t = t0\<lparr>errstring := [], error := False\<rparr>;
            n0 = enter F_merge db n
        in (case lib L (MergeOpenContainer db dbxmlfile) n0 of
              (Inl what, n1) \<Rightarrow> Some (Inl (Uncaught what))
            | (Inr _, n1) \<Rightarrow>
               (case lib L (MergeGetAllDocuments db) n1 of
                  (Inl what, n2) \<Rightarrow> Some (Inl (Uncaught what))
                | (Inr _, n2) \<Rightarrow>
                   (case merge_rounds k L db replace t n2 of
                      None \<Rightarrow> None
                    | Some (Inl f) \<Rightarrow> Some (Inl f)
                    | Some (Inr (r, t', n3)) \<Rightarrow> Some (Inr (r, store db t' n3))))))"

text \<open>
  More of a stretch of the trace: the calls of the library in it, how many times a
  container has been created, the messages of the exceptions that the library threw, the
  answers of \<open>existsContainer\<close> and of \<open>addAlias\<close>, and the error that a round of the
  loop of \<open>c_dbxml_open\<close> with this stretch has to leave: the exception with which its
  last library call ended, or else the alias that could not be added.
\<close>

definition called :: "event list \<Rightarrow> libcall list" where
  "called tr = concat (map (\<lambda>e. case e of Lib c r \<Rightarrow> [c] | _ \<Rightarrow> []) tr)"

definition creates :: "event list \<Rightarrow> nat" where
  "creates tr =
     length (filter (\<lambda>e. case e of Lib (CreateContainer h f) r \<Rightarrow> True | _ \<Rightarrow> False) tr)"

definition threw :: "event list \<Rightarrow> string list" where
  "threw tr = concat (map (\<lambda>e. case e of Lib c (Inl what) \<Rightarrow> [what] | _ \<Rightarrow> []) tr)"

definition found :: "event list \<Rightarrow> bool list" where
  "found tr =
     concat (map (\<lambda>e. case e of Lib (ExistsContainer h f) (Inr v) \<Rightarrow> [the_bool v] | _ \<Rightarrow> []) tr)"

definition aliased :: "event list \<Rightarrow> bool list" where
  "aliased tr =
     concat (map (\<lambda>e. case e of Lib (AddAlias h a) (Inr v) \<Rightarrow> [the_bool v] | _ \<Rightarrow> []) tr)"

definition failure :: "event list \<Rightarrow> string option" where
  "failure tr =
     (case thrown tr of
        Some what \<Rightarrow> Some what
      | None \<Rightarrow>
         if aliased tr = [False]
         then Some (''Unable to add alias '' @ [CHR 0x22] @ ALIAS @ [CHR 0x22])
         else None)"

text \<open>
  One round of the loop on the handle \<open>h\<close> and the file \<open>f\<close>, with the read-only flag
  \<open>ro\<close> of its configuration, the stretch \<open>e\<close> that it adds to the trace and the struct
  \<open>t\<close> that it leaves. The stretch holds nothing but calls of the library, which are, in
  this order, the creation of the update context, the question whether the container
  exists, its opening with \<open>ro\<close> when the library has answered that it exists and its
  creation otherwise, and the addition of the alias; the stretch stops before the fourth
  call only with an exception. So the round creates one update context; an exception ends
  it, and no call of the library follows one that threw; it opens the container exactly
  when the library has answered that the container exists, and creates it exactly when the
  library has answered that it does not; and the error flag and string of \<open>t\<close> are those
  of its failure.
\<close>

definition attempt :: "nat \<Rightarrow> string \<Rightarrow> bool \<Rightarrow> event list \<Rightarrow> c_dbxml_t \<Rightarrow> bool" where
  "attempt h f ro e t \<longleftrightarrow>
     called e =
       take (length e)
         [CreateUpdateContext h, ExistsContainer h f,
          if found e = [True] then OpenContainer h f ro else CreateContainer h f,
          AddAlias h ALIAS] \<and>
     (length e = 4 \<or> thrown e \<noteq> None) \<and>
     attempts e = 1 \<and>
     threw e = (case thrown e of Some what \<Rightarrow> [what] | None \<Rightarrow> []) \<and>
     opens e = (if found e = [True] then [ro] else []) \<and>
     creates e = (if found e = [False] then 1 else 0) \<and>
     error t = (failure e \<noteq> None) \<and>
     errstring t = (case failure e of Some m \<Rightarrow> m | None \<Rightarrow> [])"

section \<open>Facts about the two layers\<close>

lemmas native_defs =
  lib_def enter_def store_def store_docs_def caught_def c_dbxml_open_def open_try_def
  c_dbxml_free_def c_dbxml_error_def c_dbxml_errstring_def c_dbxml_put_file_def
  c_dbxml_put_xml_def c_dbxml_remove_def c_dbxml_get_def c_dbxml_size_def
  c_dbxml_get_all_def query_try_def c_dbxml_get_query_def c_dbxml_docs_next_def
  c_dbxml_docs_name_def c_dbxml_docs_content_def c_dbxml_docs_free_def c_dbxml_merge_def
  merge_delete_def open_loop.simps

lemmas go_defs =
  Open_def Docs_close_def Docs_Close_def Db_Close_def Db_PutFile_def Db_PutXml_def
  Db_Merge_def Db_Remove_def Db_Get_def Db_Size_def Db_All_def Db_Query_def Docs_Next_def
  Docs_Name_def Docs_Content_def returned_def boot_def scripted_def zero_Docs_def
  opened_ok_def stale_native_def opened_world_def error_state_def reported_def ALIAS_def
  Close_loop.simps

lemma thrown_simps [simp]:
  "thrown (tr @ e # es) = thrown (e # es)"
  "thrown (e # e' # es) = thrown (e' # es)"
  "thrown [Lib c (Inl what)] = Some what"
  "thrown [Lib c (Inr v)] = None"
  "thrown [Call f a] = None"
  by (simp_all add: thrown_def)

lemma lib_eq:
  "lib L c n = (fst (L c (engine n)),
                n\<lparr>engine := snd (L c (engine n)),
                  trace := trace n @ [Lib c (fst (L c (engine n)))]\<rparr>)"
  by (simp add: lib_def split: prod.split)

lemma lib_frame [simp]:
  "handles (snd (lib L c n)) = handles n"
  "cursors (snd (lib L c n)) = cursors n"
  "fresh (snd (lib L c n)) = fresh n"
  "trace (snd (lib L c n)) = trace n @ [Lib c (fst (lib L c n))]"
  by (simp_all add: lib_def split: prod.split)

lemmas nat_simps = lib_eq enter_def store_def store_docs_def Let_def error_state_def reported_def

lemma put_file_error:
  assumes "handles n db = Some t"
  shows "case c_dbxml_put_file L db nm replace n of Inl f \<Rightarrow> False | Inr (ret, n') \<Rightarrow>
           (ret = 0 \<longleftrightarrow> thrown (trace n') \<noteq> None) \<and> error_state n' db = Some (reported (trace n'))"
  using assms
  by (simp add: c_dbxml_put_file_def nat_simps split: sum.split)

lemma put_xml_error:
  assumes "handles n db = Some t"
  shows "case c_dbxml_put_xml L db nm data replace n of Inl f \<Rightarrow> False | Inr (ret, n') \<Rightarrow>
           (ret = 0 \<longleftrightarrow> thrown (trace n') \<noteq> None) \<and> error_state n' db = Some (reported (trace n'))"
  using assms
  by (simp add: c_dbxml_put_xml_def nat_simps split: sum.split)

lemma remove_error:
  assumes "handles n db = Some t"
  shows "case c_dbxml_remove L db nm n of Inl f \<Rightarrow> False | Inr (ret, n') \<Rightarrow>
           (ret = 0 \<longleftrightarrow> thrown (trace n') \<noteq> None) \<and> error_state n' db = Some (reported (trace n'))"
  using assms
  by (simp add: c_dbxml_remove_def nat_simps split: sum.split)

lemma get_error:
  assumes "handles n db = Some t"
  shows "case c_dbxml_get L db nm n of Inl f \<Rightarrow> False | Inr (str, n') \<Rightarrow>
           error_state n' db = Some (reported (trace n'))"
  using assms
  by (simp add: c_dbxml_get_def nat_simps split: sum.split)

lemma get_query_error:
  assumes "handles n db = Some t"
  shows "case c_dbxml_get_query L db q n of Inl f \<Rightarrow> False | Inr (c, n') \<Rightarrow>
           error_state n' db = Some (reported (trace n')) \<and>
           map_option c_more (cursors n' c) = Some (thrown (trace n') = None)"
  using assms
  by (simp add: c_dbxml_get_query_def query_try_def nat_simps split: sum.split)

lemma get_all_error:
  assumes "handles n db = Some t"
  shows "case c_dbxml_get_all L db n of Inl f \<Rightarrow> True | Inr (c, n') \<Rightarrow>
           error_state n' db = Some (False, [])"
  using assms
  by (simp add: c_dbxml_get_all_def nat_simps split: sum.split)

lemma size_error:
  "case c_dbxml_size L db n of Inl f \<Rightarrow> True | Inr (k, n') \<Rightarrow> handles n' = handles n"
  by (simp add: c_dbxml_size_def nat_simps split: sum.split option.split)

text \<open>What the loop of the merge leaves behind, when it ends.\<close>

definition merge_post :: "c_dbxml_t \<Rightarrow> 'w native \<Rightarrow> fault + int \<times> c_dbxml_t \<times> 'w native \<Rightarrow> bool" where
  "merge_post t n y =
   (case y of Inl f \<Rightarrow> True
    | Inr (ret, t', n') \<Rightarrow>
        (ret = 0 \<longleftrightarrow> thrown (trace n') \<noteq> None) \<and>
        t' = (case thrown (trace n') of
                Some what \<Rightarrow> t\<lparr>error := True, errstring := what\<rparr> | None \<Rightarrow> t) \<and>
        handles n' = handles n \<and> cursors n' = cursors n \<and> fresh n' = fresh n)"

lemma merge_delete_frame [simp]:
  "handles (merge_delete L db replace n) = handles n"
  "cursors (merge_delete L db replace n) = cursors n"
  "fresh (merge_delete L db replace n) = fresh n"
  by (simp_all add: merge_delete_def case_prod_beta split: sum.split)

lemma merge_loop_result:
  assumes "merge_loop L db replace t n = Some y"
  shows "merge_post t n y"
proof (rule merge_loop.raw_induct [where P = "\<lambda>L db replace t n y. merge_post t n y", OF _ assms],
       goal_cases)
  case (1 merge_loop L db replace t n y)
  let ?n1 = "snd (lib L (MergeNext db) n)"
  let ?put = "lib L (PutDocumentDoc db) (merge_delete L db replace ?n1)"
  note body = 1(2) [unfolded case_prod_beta]
  show ?case
  proof (cases "fst (lib L (MergeNext db) n)")
    case (Inl what)
    with body show ?thesis by (auto simp: merge_post_def)
  next
    case (Inr b)
    show ?thesis
    proof (cases "the_bool b")
      case False
      with Inr body have "y = Inr (1, t, ?n1)" by simp
      moreover have "thrown (trace ?n1) = None" by (simp add: Inr)
      ultimately show ?thesis by (simp add: merge_post_def)
    next
      case True
      show ?thesis
      proof (cases "fst ?put")
        case (Inl what)
        with True Inr body have "y = Inr (0, t\<lparr>error := True, errstring := what\<rparr>, snd ?put)"
          by simp
        moreover have "thrown (trace (snd ?put)) = Some what" by (simp add: Inl)
        ultimately show ?thesis by (simp add: merge_post_def)
      next
        case put: (Inr v)
        with True Inr body have "merge_loop L db replace t (snd ?put) = Some y" by simp
        from 1(1) [OF this] show ?thesis
          by (auto simp: merge_post_def split: sum.splits)
      qed
    qed
  qed
qed

lemma merge_returns:
  assumes "c_dbxml_merge L db f replace n = Some (Inr (ret, n'))"
  shows "\<exists>t t' n0 n1. handles n db = Some t \<and>
           merge_loop L db replace (t\<lparr>errstring := [], error := False\<rparr>) n0 = Some (Inr (ret, t', n1)) \<and>
           n' = store db t' n1 \<and> handles n0 = handles n \<and> cursors n0 = cursors n \<and>
           fresh n0 = fresh n"
proof -
  let ?n0 = "snd (lib L (MergeGetAllDocuments db)
                (snd (lib L (MergeOpenContainer db f) (enter F_merge db n))))"
  from assms obtain t where t: "handles n db = Some t"
    by (auto simp: c_dbxml_merge_def split: option.splits)
  from assms t obtain t' n1 where
    "merge_loop L db replace (t\<lparr>errstring := [], error := False\<rparr>) ?n0 = Some (Inr (ret, t', n1))"
    "n' = store db t' n1"
    by (auto simp: c_dbxml_merge_def Let_def case_prod_beta split: sum.splits option.splits)
  moreover have "handles ?n0 = handles n \<and> cursors ?n0 = cursors n \<and> fresh ?n0 = fresh n"
    by (simp add: enter_def)
  ultimately show ?thesis using t by blast
qed

lemma merge_error:
  assumes "handles n db = Some t"
  shows "case c_dbxml_merge L db f replace n of None \<Rightarrow> True | Some (Inl f) \<Rightarrow> True
         | Some (Inr (ret, n')) \<Rightarrow>
           (ret = 0 \<longleftrightarrow> thrown (trace n') \<noteq> None) \<and> error_state n' db = Some (reported (trace n'))"
proof (cases "c_dbxml_merge L db f replace n")
  case None
  then show ?thesis by simp
next
  case (Some x)
  show ?thesis
  proof (cases x)
    case (Inl a)
    with Some show ?thesis by simp
  next
    case (Inr b)
    obtain ret n' where b: "b = (ret, n')" by (cases b)
    from merge_returns [OF Some [unfolded Inr b]] obtain t0 t' n0 n1 where
      ml: "merge_loop L db replace (t0\<lparr>errstring := [], error := False\<rparr>) n0 = Some (Inr (ret, t', n1))"
      and n': "n' = store db t' n1"
      by blast
    from merge_loop_result [OF ml] n' have
      "(ret = 0 \<longleftrightarrow> thrown (trace n') \<noteq> None) \<and> error_state n' db = Some (reported (trace n'))"
      by (auto simp: merge_post_def store_def error_state_def reported_def)
    with Some Inr b show ?thesis by simp
  qed
qed

text \<open>What each function does to the C++ heap: which structs exist afterwards.\<close>

lemma same_shape_refl [simp]: "same_shape n n"
  by (simp add: same_shape_def)

lemma dom_upd_same: "m k = Some v \<Longrightarrow> insert k (dom m) = dom m"
  by auto

lemmas shape_simps = same_shape_def shape_def lib_eq enter_def store_def store_docs_def Let_def dom_upd_same

lemma error_shape: "c_dbxml_error db n = Inr (e, n') \<Longrightarrow> same_shape n n'"
  by (clarsimp simp: c_dbxml_error_def shape_simps split: option.splits)

lemma errstring_shape: "c_dbxml_errstring db n = Inr (e, n') \<Longrightarrow> same_shape n n'"
  by (clarsimp simp: c_dbxml_errstring_def shape_simps split: option.splits)

lemma put_file_shape: "c_dbxml_put_file L db f rp n = Inr (e, n') \<Longrightarrow> same_shape n n'"
  by (clarsimp simp: c_dbxml_put_file_def shape_simps split: option.splits sum.splits)

lemma put_xml_shape: "c_dbxml_put_xml L db f x rp n = Inr (e, n') \<Longrightarrow> same_shape n n'"
  by (clarsimp simp: c_dbxml_put_xml_def shape_simps split: option.splits sum.splits)

lemma remove_shape: "c_dbxml_remove L db f n = Inr (e, n') \<Longrightarrow> same_shape n n'"
  by (clarsimp simp: c_dbxml_remove_def shape_simps split: option.splits sum.splits)

lemma get_shape: "c_dbxml_get L db f n = Inr (e, n') \<Longrightarrow> same_shape n n'"
  by (clarsimp simp: c_dbxml_get_def shape_simps split: option.splits sum.splits)

lemma size_shape: "c_dbxml_size L db n = Inr (e, n') \<Longrightarrow> same_shape n n'"
  by (clarsimp simp: c_dbxml_size_def shape_simps split: option.splits sum.splits)

lemma docs_next_shape: "c_dbxml_docs_next L c n = Inr (e, n') \<Longrightarrow> same_shape n n'"
  by (clarsimp simp: c_dbxml_docs_next_def shape_simps split: option.splits sum.splits if_splits)

lemma docs_name_shape: "c_dbxml_docs_name L c n = Inr (e, n') \<Longrightarrow> same_shape n n'"
  by (clarsimp simp: c_dbxml_docs_name_def shape_simps split: option.splits sum.splits if_splits)

lemma docs_content_shape: "c_dbxml_docs_content L c n = Inr (e, n') \<Longrightarrow> same_shape n n'"
  by (clarsimp simp: c_dbxml_docs_content_def shape_simps split: option.splits sum.splits if_splits)

lemma merge_shape:
  assumes "c_dbxml_merge L db f rp n = Some (Inr (e, n'))"
  shows "same_shape n n'"
proof -
  from merge_returns [OF assms] obtain t t' n0 n1 where
    t: "handles n db = Some t" and
    ml: "merge_loop L db rp (t\<lparr>errstring := [], error := False\<rparr>) n0 = Some (Inr (e, t', n1))" and
    n': "n' = store db t' n1" and fr: "handles n0 = handles n" "cursors n0 = cursors n" "fresh n0 = fresh n"
    by blast
  from merge_loop_result [OF ml] have "handles n1 = handles n0" "cursors n1 = cursors n0" "fresh n1 = fresh n0"
    by (simp_all add: merge_post_def)
  with t n' fr show ?thesis by (simp add: same_shape_def shape_def store_def dom_upd_same [of _ _ t])
qed

lemma get_all_shape:
  "c_dbxml_get_all L db n = Inr (c, n') \<Longrightarrow>
   c = fresh n \<and> dom (handles n') = dom (handles n) \<and>
   dom (cursors n') = insert (fresh n) (dom (cursors n)) \<and> fresh n' = Suc (fresh n)"
  by (clarsimp simp: c_dbxml_get_all_def shape_simps split: option.splits sum.splits if_splits)

lemma get_query_shape:
  "c_dbxml_get_query L db q n = Inr (c, n') \<Longrightarrow>
   c = fresh n \<and> dom (handles n') = dom (handles n) \<and>
   dom (cursors n') = insert (fresh n) (dom (cursors n)) \<and> fresh n' = Suc (fresh n)"
  by (clarsimp simp: c_dbxml_get_query_def query_try_def shape_simps split: option.splits sum.splits if_splits)

lemma free_shape:
  "c_dbxml_free L db n = Inr n' \<Longrightarrow>
   dom (handles n') = dom (handles n) - {db} \<and> dom (cursors n') = dom (cursors n) \<and>
   fresh n' = fresh n"
  by (clarsimp simp: c_dbxml_free_def shape_simps split: option.splits sum.splits if_splits)

lemma docs_free_shape:
  "c_dbxml_docs_free L c n = Inr n' \<Longrightarrow>
   dom (handles n') = dom (handles n) \<and> dom (cursors n') = dom (cursors n) - {c} \<and>
   fresh n' = fresh n"
  by (clarsimp simp: c_dbxml_docs_free_def shape_simps split: option.splits sum.splits if_splits)

lemma open_try_frame:
  "open_try L db f i (t, n) = (t', n') \<Longrightarrow>
   handles n' = handles n \<and> cursors n' = cursors n \<and> fresh n' = fresh n"
  by (auto simp: open_try_def lib_eq Let_def caught_def split: sum.splits if_splits)

lemma open_loop_frame:
  "open_loop L db f i tn = (t', n') \<Longrightarrow>
   handles n' = handles (snd tn) \<and> cursors n' = cursors (snd tn) \<and> fresh n' = fresh (snd tn)"
proof (induction L db f i tn rule: open_loop.induct)
  case (1 L db filename i tn)
  show ?case
  proof (cases "i < 2")
    case False
    with 1(2) show ?thesis by (simp add: open_loop.simps [of L db filename i tn])
  next
    case True
    obtain t1 n1 where a: "open_try L db filename i (fst tn\<lparr>error := False, errstring := []\<rparr>, snd tn) = (t1, n1)"
      by (cases "open_try L db filename i (fst tn\<lparr>error := False, errstring := []\<rparr>, snd tn)")
    note fr = open_try_frame [OF a]
    show ?thesis
    proof (cases "error t1")
      case False
      with True a 1(2) fr show ?thesis by (simp add: open_loop.simps [of L db filename i tn])
    next
      case e: True
      with True a 1(2) have "open_loop L db filename (i + 1) (t1, n1) = (t', n')"
        by (simp add: open_loop.simps [of L db filename i tn])
      from 1(1) [OF True a [symmetric] _ this] e fr show ?thesis by simp
    qed
  qed
qed

lemma open_shape:
  assumes "c_dbxml_open L f n = (h, n')"
  shows "h = fresh n \<and> dom (handles n') = insert (fresh n) (dom (handles n)) \<and>
   dom (cursors n') = dom (cursors n) \<and> fresh n' = Suc (fresh n)"
proof -
  let ?n0 = "enter F_open (fresh n) (n\<lparr>fresh := Suc (fresh n)\<rparr>)"
  let ?t0 = "\<lparr>config_readOnly = False, error = False, errstring = [], result = []\<rparr>"
  obtain t n1 where l: "open_loop L (fresh n) f 0 (?t0, ?n0) = (t, n1)"
    by (cases "open_loop L (fresh n) f 0 (?t0, ?n0)")
  from open_loop_frame [OF l] have "handles n1 = handles n" "cursors n1 = cursors n" "fresh n1 = Suc (fresh n)"
    by (simp_all add: enter_def)
  moreover from assms l have "h = fresh n" "n' = store (fresh n) t n1"
    by (auto simp: c_dbxml_open_def Let_def)
  ultimately show ?thesis by (simp add: store_def)
qed

lemma quiet_wf:
  assumes "quiet s s'" "wf s"
  shows "wf s'"
proof -
  from assms(1) have eq: "heap_db s' = heap_db s" "heap_docs s' = heap_docs s" "new_db s' = new_db s"
     "new_docs s' = new_docs s" "dom (handles (native s')) = dom (handles (native s))"
     "dom (cursors (native s')) = dom (cursors (native s))" "fresh (native s') = fresh (native s)"
    by (simp_all add: quiet_def same_shape_def shape_def)
  from assms(2) show ?thesis
    unfolding wf_def inv_alloc_def inv_children_def inv_owner_def inv_live_def eq .
qed

lemma Docs_close_closed:
  "heap_docs s d = Some x \<Longrightarrow> \<not> docs_opened x \<Longrightarrow> Docs_close L d s = Inr s"
  by (simp add: Docs_close_def)

lemma Docs_close_opened:
  "heap_docs s d = Some x \<Longrightarrow> docs_opened x \<Longrightarrow> docs_docs x = Some c \<Longrightarrow>
   docs_db x = Some r \<Longrightarrow> heap_db s r = Some db \<Longrightarrow>
   Docs_close L d s =
     (case c_dbxml_docs_free L c (native s) of
        Inl f \<Rightarrow> Inl f
      | Inr n' \<Rightarrow> Inr (closed_docs d x r db n' s))"
  by (simp add: Docs_close_def closed_docs_def split: sum.split)

lemma inv_childrenD:
  assumes "inv_children s" "heap_db s r = Some db" "db_docss db i = Some d"
  obtains x where "i < db_next db" "heap_docs s d = Some x" "docs_opened x"
    "docs_db x = Some r" "docs_id x = i"
  using assms unfolding inv_children_def by blast

lemma inv_ownerD:
  assumes "inv_owner s" "heap_docs s d = Some x" "docs_opened x"
  obtains r db where "docs_db x = Some r" "heap_db s r = Some db" "db_opened db"
    "db_docss db (docs_id x) = Some d"
  using assms unfolding inv_owner_def by blast

lemma inv_live_cursorD:
  assumes "inv_live s" "heap_docs s d = Some x" "docs_opened x"
  obtains c where "docs_docs x = Some c" "c \<in> dom (cursors (native s))"
  using assms unfolding inv_live_def by blast

lemma inv_live_cursor_inj:
  assumes "inv_live s" "heap_docs s d = Some x" "heap_docs s d' = Some x'"
    "docs_opened x" "docs_opened x'" "docs_docs x = docs_docs x'"
  shows "d = d'"
  using assms unfolding inv_live_def by blast

lemma inv_live_handleD:
  assumes "inv_live s" "heap_db s r = Some db" "db_opened db"
  shows "db_db db \<in> dom (handles (native s))"
  using assms unfolding inv_live_def by blast

lemma inv_live_handle_inj:
  assumes "inv_live s" "heap_db s r = Some db" "heap_db s r' = Some db'"
    "db_opened db" "db_opened db'" "db_db db = db_db db'"
  shows "r = r'"
  using assms unfolding inv_live_def by blast

lemma closed_docs_simps [simp]:
  "heap_db (closed_docs d x r db n' s) r0 =
     (if r0 = r then Some (db\<lparr>db_docss := (db_docss db)(docs_id x := None)\<rparr>) else heap_db s r0)"
  "heap_docs (closed_docs d x r db n' s) d0 =
     (if d0 = d then Some (x\<lparr>docs_opened := False, docs_db := None\<rparr>) else heap_docs s d0)"
  "native (closed_docs d x r db n' s) = n'"
  "new_db (closed_docs d x r db n' s) = new_db s"
  "new_docs (closed_docs d x r db n' s) = new_docs s"
  "fin_db (closed_docs d x r db n' s) = fin_db s"
  "fin_docs (closed_docs d x r db n' s) = fin_docs s"
  by (simp_all add: closed_docs_def)

lemma closed_docs_alloc:
  assumes "inv_alloc s" "heap_docs s d = Some x" "heap_db s r = Some db"
      "dom (handles n') \<subseteq> dom (handles (native s))"
      "dom (cursors n') \<subseteq> dom (cursors (native s))"
      "fresh n' = fresh (native s)"
  shows "inv_alloc (closed_docs d x r db n' s)"
  using assms unfolding inv_alloc_def
  by (auto simp: dom_def split: if_splits)

lemma closed_docs_children:
  assumes "inv_children s" "inv_owner s" "heap_docs s d = Some x" "docs_opened x" "docs_db x = Some r"
      "heap_db s r = Some db"
  shows "inv_children (closed_docs d x r db n' s)"
  unfolding inv_children_def
proof (intro allI impI)
  fix r0 db0 i d0
  assume h: "heap_db (closed_docs d x r db n' s) r0 = Some db0" and k: "db_docss db0 i = Some d0"
  from h k assms(6) obtain db1 where db1: "heap_db s r0 = Some db1" "db_docss db1 i = Some d0"
    "db_next db0 = db_next db1" and ne: "r0 = r \<Longrightarrow> i \<noteq> docs_id x"
    by (auto split: if_splits)
  from inv_childrenD [OF assms(1) db1(1,2)] obtain x0 where
    x0: "i < db_next db1" "heap_docs s d0 = Some x0" "docs_opened x0" "docs_db x0 = Some r0" "docs_id x0 = i"
    by blast
  have "d0 \<noteq> d"
  proof
    assume "d0 = d"
    with x0 assms(3) have "x0 = x" by simp
    with x0 assms(5) ne show False by simp
  qed
  with x0 db1(3)
  show "i < db_next db0 \<and>
        (\<exists>y. heap_docs (closed_docs d x r db n' s) d0 = Some y \<and> docs_opened y \<and>
             docs_db y = Some r0 \<and> docs_id y = i)"
    by simp
qed

lemma closed_docs_owner:
  assumes "inv_owner s" "heap_docs s d = Some x" "docs_opened x" "docs_db x = Some r"
      "heap_db s r = Some db"
  shows "inv_owner (closed_docs d x r db n' s)"
  unfolding inv_owner_def
proof (intro allI impI)
  fix d0 x0
  assume h: "heap_docs (closed_docs d x r db n' s) d0 = Some x0" and o: "docs_opened x0"
  from h o have dd: "d0 \<noteq> d" and x0: "heap_docs s d0 = Some x0"
    by (auto split: if_splits)
  from inv_ownerD [OF assms(1) x0 o] obtain r0 db0 where
    o0: "docs_db x0 = Some r0" "heap_db s r0 = Some db0" "db_opened db0"
        "db_docss db0 (docs_id x0) = Some d0"
    by blast
  obtain r' db' where "docs_db x = Some r'" "heap_db s r' = Some db'"
      "db_docss db' (docs_id x) = Some d"
    using inv_ownerD [OF assms(1) assms(2) assms(3)] by blast
  with assms(4,5) have reg: "db_docss db (docs_id x) = Some d"
    by simp
  show "\<exists>ra dba. docs_db x0 = Some ra \<and> heap_db (closed_docs d x r db n' s) ra = Some dba \<and>
           db_opened dba \<and> db_docss dba (docs_id x0) = Some d0"
  proof (cases "r0 = r")
    case False
    with o0 show ?thesis by simp
  next
    case True
    with o0 assms(5) have "db0 = db" by simp
    with o0 reg dd have "docs_id x0 \<noteq> docs_id x" by auto
    with True o0 \<open>db0 = db\<close> show ?thesis by simp
  qed
qed

lemma closed_docs_live:
  assumes "inv_live s" "heap_docs s d = Some x" "docs_opened x" 
      "heap_db s r = Some db" "docs_docs x = Some c"
      "dom (handles n') = dom (handles (native s))"
      "dom (cursors n') = dom (cursors (native s)) - {c}"
  shows "inv_live (closed_docs d x r db n' s)"
  unfolding inv_live_def
proof (intro conjI allI impI)
  fix r0 db0
  assume "heap_db (closed_docs d x r db n' s) r0 = Some db0" "db_opened db0"
  with assms(4) obtain db1 where db1: "heap_db s r0 = Some db1" "db_opened db1" "db_db db1 = db_db db0"
    by (auto split: if_splits)
  from inv_live_handleD [OF assms(1) db1(1,2)] db1(3) assms(6)
  show "db_db db0 \<in> dom (handles (native (closed_docs d x r db n' s)))" by simp
next
  fix r0 r1 db0 db1
  assume "heap_db (closed_docs d x r db n' s) r0 = Some db0"
    "heap_db (closed_docs d x r db n' s) r1 = Some db1" "db_opened db0" "db_opened db1"
    "db_db db0 = db_db db1"
  with assms(4) obtain db0' db1' where *: "heap_db s r0 = Some db0'" "heap_db s r1 = Some db1'"
     "db_opened db0'" "db_opened db1'" "db_db db0' = db_db db1'"
    by (auto split: if_splits)
  from inv_live_handle_inj [OF assms(1) *] show "r0 = r1" .
next
  fix d0 x0
  assume "heap_docs (closed_docs d x r db n' s) d0 = Some x0" "docs_opened x0"
  then have dd: "d0 \<noteq> d" and x0: "heap_docs s d0 = Some x0" "docs_opened x0"
    by (auto split: if_splits)
  from inv_live_cursorD [OF assms(1) x0] obtain c0 where c0: "docs_docs x0 = Some c0"
    "c0 \<in> dom (cursors (native s))" by blast
  have "c0 \<noteq> c"
  proof
    assume "c0 = c"
    with c0 assms(5) have "docs_docs x0 = docs_docs x" by simp
    from inv_live_cursor_inj [OF assms(1) x0(1) assms(2) x0(2) assms(3) this] dd show False by simp
  qed
  with c0 assms(7)
  show "\<exists>c. docs_docs x0 = Some c \<and> c \<in> dom (cursors (native (closed_docs d x r db n' s)))"
    by simp
next
  fix d0 d1 x0 x1
  assume "heap_docs (closed_docs d x r db n' s) d0 = Some x0"
     "heap_docs (closed_docs d x r db n' s) d1 = Some x1" "docs_opened x0" "docs_opened x1"
     "docs_docs x0 = docs_docs x1"
  then have *: "heap_docs s d0 = Some x0" "heap_docs s d1 = Some x1" "docs_opened x0" "docs_opened x1"
     "docs_docs x0 = docs_docs x1"
    by (auto split: if_splits)
  from inv_live_cursor_inj [OF assms(1) *] show "d0 = d1" .
qed

lemma quiet_refl [simp]: "quiet s s"
  by (simp add: quiet_def)

lemma PutFile_quiet: "Db_PutFile L r f b s = Inr (e, s') \<Longrightarrow> quiet s s'"
  by (auto simp: Db_PutFile_def Let_def quiet_def same_shape_def split: option.splits if_splits sum.splits
      dest!: put_file_shape errstring_shape)

lemma PutXml_quiet: "Db_PutXml L r f x b s = Inr (e, s') \<Longrightarrow> quiet s s'"
  by (auto simp: Db_PutXml_def Let_def quiet_def same_shape_def split: option.splits if_splits sum.splits
      dest!: put_xml_shape errstring_shape)

lemma Remove_quiet: "Db_Remove L r f s = Inr (e, s') \<Longrightarrow> quiet s s'"
  by (auto simp: Db_Remove_def Let_def quiet_def same_shape_def split: option.splits if_splits sum.splits
      dest!: remove_shape errstring_shape)

lemma Get_quiet: "Db_Get L r f s = Inr (e, s') \<Longrightarrow> quiet s s'"
  by (auto simp: Db_Get_def Let_def quiet_def same_shape_def split: option.splits if_splits sum.splits
      dest!: get_shape error_shape)

lemma Size_quiet: "Db_Size L r s = Inr (e, s') \<Longrightarrow> quiet s s'"
  by (auto simp: Db_Size_def Let_def quiet_def same_shape_def split: option.splits if_splits sum.splits
      dest!: size_shape)

lemma Merge_quiet: "Db_Merge L r f b s = Some (Inr (e, s')) \<Longrightarrow> quiet s s'"
  by (auto simp: Db_Merge_def Let_def quiet_def same_shape_def split: option.splits if_splits sum.splits
      dest!: merge_shape errstring_shape)

lemma Name_quiet: "Docs_Name L d s = Inr (e, s') \<Longrightarrow> quiet s s'"
  by (auto simp: Docs_Name_def Let_def quiet_def same_shape_def split: option.splits if_splits sum.splits
      dest!: docs_name_shape)

lemma Content_quiet: "Docs_Content L d s = Inr (e, s') \<Longrightarrow> quiet s s'"
  by (auto simp: Docs_Content_def Let_def quiet_def same_shape_def split: option.splits if_splits sum.splits
      dest!: docs_content_shape)

lemma docs_free_total:
  "cursors n c = Some y \<Longrightarrow> \<exists>n'. c_dbxml_docs_free L c n = Inr n'"
  by (simp add: c_dbxml_docs_free_def Let_def)

lemma free_total:
  "handles n h = Some t \<Longrightarrow> \<exists>n'. c_dbxml_free L h n = Inr n'"
  by (simp add: c_dbxml_free_def Let_def)

lemma wfD:
  assumes "wf s"
  shows "inv_alloc s" "inv_children s" "inv_owner s" "inv_live s"
  using assms by (simp_all add: wf_def)

lemma Docs_close_wf_opened:
  assumes "wf s" "heap_docs s d = Some x" "docs_opened x"
  obtains r db c n' where "docs_db x = Some r" "heap_db s r = Some db" "db_opened db"
    "db_docss db (docs_id x) = Some d" "docs_docs x = Some c" "c \<in> dom (cursors (native s))"
    "c_dbxml_docs_free L c (native s) = Inr n'"
    "Docs_close L d s = Inr (closed_docs d x r db n' s)"
    "wf (closed_docs d x r db n' s)"
    "dom (handles n') = dom (handles (native s))"
    "dom (cursors n') = dom (cursors (native s)) - {c}"
    "fresh n' = fresh (native s)"
proof -
  note inv = wfD [OF assms(1)]
  from inv_ownerD [OF inv(3) assms(2,3)] obtain r db where
    o: "docs_db x = Some r" "heap_db s r = Some db" "db_opened db" "db_docss db (docs_id x) = Some d"
    by blast
  from inv_live_cursorD [OF inv(4) assms(2,3)] obtain c where
    c: "docs_docs x = Some c" "c \<in> dom (cursors (native s))" by blast
  from c(2) obtain y where "cursors (native s) c = Some y" by blast
  from docs_free_total [OF this] obtain n' where f: "c_dbxml_docs_free L c (native s) = Inr n'"
    by blast
  note sh = docs_free_shape [OF f]
  from sh have sh': "dom (handles n') = dom (handles (native s))"
    "dom (cursors n') = dom (cursors (native s)) - {c}" "fresh n' = fresh (native s)"
    by simp_all
  have cl: "Docs_close L d s = Inr (closed_docs d x r db n' s)"
    using Docs_close_opened [OF assms(2,3) c(1) o(1,2), of L] f by simp
  have "inv_alloc (closed_docs d x r db n' s)"
    by (rule closed_docs_alloc [OF inv(1) assms(2) o(2)]) (simp_all add: sh')
  moreover have "inv_children (closed_docs d x r db n' s)"
    by (rule closed_docs_children [OF inv(2,3) assms(2,3) o(1,2)])
  moreover have "inv_owner (closed_docs d x r db n' s)"
    by (rule closed_docs_owner [OF inv(3) assms(2,3) o(1,2)])
  moreover have "inv_live (closed_docs d x r db n' s)"
    by (rule closed_docs_live [OF inv(4) assms(2,3) o(2) c(1) sh'(1,2)])
  ultimately have "wf (closed_docs d x r db n' s)" by (simp add: wf_def)
  with that o c f cl sh' show thesis by blast
qed

lemma Docs_close_wf:
  assumes "wf s" "Docs_close L d s = Inr s'"
  shows "wf s'"
proof -
  from assms(2) obtain x where x: "heap_docs s d = Some x"
    by (auto simp: Docs_close_def split: option.splits)
  show ?thesis
  proof (cases "docs_opened x")
    case False
    with Docs_close_closed [OF x False, of L] assms show ?thesis by simp
  next
    case True
    from Docs_close_wf_opened [OF assms(1) x True, of L] assms(2) show ?thesis
      by (metis sum.inject(2))
  qed
qed

lemma loop_post_done:
  assumes "wf s" "heap_db s r = Some db" "db_docss db = Map.empty"
  shows "loop_post r s s"
proof -
  note inv = wfD [OF assms(1)]
  have none: "\<not> (docs_opened y \<and> docs_db y = Some r)" if "heap_docs s d = Some y" for d y
  proof
    assume a: "docs_opened y \<and> docs_db y = Some r"
    from inv_ownerD [OF inv(3) that] a obtain r' db' where
      "docs_db y = Some r'" "heap_db s r' = Some db'" "db_docss db' (docs_id y) = Some d"
      by blast
    with a assms(2,3) show False by simp
  qed
  have "owned_cursors r s = {}"
    using none by (auto simp: owned_cursors_def)
  moreover have "heap_docs s d = map_option (close_owned r) (heap_docs s d)" for d
    using none [of d] by (cases "heap_docs s d") (auto simp: close_owned_def)
  moreover have "db\<lparr>db_docss := Map.empty\<rparr> = db"
    using assms(3) by simp
  ultimately show ?thesis
    using assms(2) unfolding loop_post_def by auto
qed

lemma loop_post_step:
  assumes "heap_docs s d = Some x" "docs_opened x" "docs_db x = Some r" "heap_db s r = Some db"
    "docs_docs x = Some c"
    "dom (handles n') = dom (handles (native s))"
    "dom (cursors n') = dom (cursors (native s)) - {c}"
    "fresh n' = fresh (native s)"
    "loop_post r (closed_docs d x r db n' s) s'"
  shows "loop_post r s s'"
proof -
  let ?s1 = "closed_docs d x r db n' s"
  note p = assms(9) [unfolded loop_post_def]
  have db: "heap_db s' r' =
         (if r' = r then map_option (\<lambda>db. db\<lparr>db_docss := Map.empty\<rparr>) (heap_db s r)
          else heap_db s r')" for r'
    using p assms(4) by simp
  have docs: "heap_docs s' d' = map_option (close_owned r) (heap_docs s d')" for d'
  proof (cases "d' = d")
    case True
    with p have "heap_docs s' d' = Some (close_owned r (x\<lparr>docs_opened := False, docs_db := None\<rparr>))"
      by simp
    with True assms(1,2,3) show ?thesis by (simp add: close_owned_def)
  next
    case False
    with p show ?thesis by simp
  qed
  have oc: "owned_cursors r s = insert c (owned_cursors r ?s1)"
  proof (rule set_eqI)
    fix c'
    show "c' \<in> owned_cursors r s \<longleftrightarrow> c' \<in> insert c (owned_cursors r ?s1)"
    proof
      assume "c' \<in> owned_cursors r s"
      then obtain d' y where y: "heap_docs s d' = Some y" "docs_opened y" "docs_db y = Some r"
        "docs_docs y = Some c'" by (auto simp: owned_cursors_def)
      show "c' \<in> insert c (owned_cursors r ?s1)"
      proof (cases "d' = d")
        case True
        with y assms(1,5) show ?thesis by simp
      next
        case False
        with y have "heap_docs ?s1 d' = Some y" by simp
        with y have "c' \<in> owned_cursors r ?s1" unfolding owned_cursors_def by blast
        then show ?thesis by simp
      qed
    next
      assume "c' \<in> insert c (owned_cursors r ?s1)"
      then consider "c' = c" | "c' \<in> owned_cursors r ?s1" by blast
      then show "c' \<in> owned_cursors r s"
      proof cases
        case 1
        with assms(1,2,3,5) show ?thesis unfolding owned_cursors_def by blast
      next
        case 2
        then obtain d' y where y: "heap_docs ?s1 d' = Some y" "docs_opened y" "docs_db y = Some r"
          "docs_docs y = Some c'" by (auto simp: owned_cursors_def)
        from y(1,2) have "d' \<noteq> d" by (auto split: if_splits)
        with y(1) have "heap_docs s d' = Some y" by simp
        with y show ?thesis unfolding owned_cursors_def by blast
      qed
    qed
  qed
  have cur: "dom (cursors (native s')) = dom (cursors (native s)) - owned_cursors r s"
  proof -
    from p have "dom (cursors (native s')) = dom (cursors n') - owned_cursors r ?s1" by simp
    with assms(7) oc show ?thesis by auto
  qed
  from p assms(6,8) have rest: "dom (handles (native s')) = dom (handles (native s))"
     "fresh (native s') = fresh (native s)"
     "new_db s' = new_db s" "new_docs s' = new_docs s"
     "fin_db s' = fin_db s" "fin_docs s' = fin_docs s"
    by simp_all
  show ?thesis
    unfolding loop_post_def using db docs cur rest by blast
qed

lemma word_less_inc:
  fixes i j k :: "64 word"
  assumes "i < k" "j < i + 1"
  shows "j < i \<or> j = i"
proof -
  from assms have "unat j < Suc (unat i)" by (simp add: word_less_nat_alt word_inc_unat [OF assms(1)])
  then have "unat j < unat i \<or> unat j = unat i" by auto
  then show ?thesis by (auto simp: word_less_nat_alt word_unat_eq_iff)
qed

lemma Close_loop_wf:
  assumes "wf s" "heap_db s r = Some db" "\<forall>j. j < i \<longrightarrow> db_docss db j = None"
  shows "\<exists>s'. Close_loop L r i s = Inr s' \<and> wf s' \<and> loop_post r s s'"
  using assms
proof (induction L r i s arbitrary: db rule: Close_loop.induct)
  case (1 L r i s)
  note inv = wfD [OF 1(3)]
  show ?case
  proof (cases "i < db_next db")
    case False
    have "db_docss db j = None" for j
    proof (cases "db_docss db j")
      case (Some d)
      from inv_childrenD [OF inv(2) 1(4) Some] have "j < db_next db" by blast
      with False have "j < i" by simp
      with 1(5) Some show ?thesis by simp
    qed simp
    then have "db_docss db = Map.empty" by (simp add: fun_eq_iff)
    from loop_post_done [OF 1(3,4) this] False 1(3,4) show ?thesis
      by (simp add: Close_loop.simps [of L r i s])
  next
    case True
    show ?thesis
    proof (cases "db_docss db i")
      case None
      have "\<forall>j. j < i + 1 \<longrightarrow> db_docss db j = None"
        using word_less_inc [OF True] 1(5) None by blast
      from 1(1) [OF 1(4) True None 1(3,4) this] True None 1(4) show ?thesis
        by (simp add: Close_loop.simps [of L r i s])
    next
      case (Some d)
      from inv_childrenD [OF inv(2) 1(4) Some] obtain x where
        x: "heap_docs s d = Some x" "docs_opened x" "docs_db x = Some r" "docs_id x = i"
        by blast
      from Docs_close_wf_opened [OF 1(3) x(1,2), of L] x(3) 1(4) obtain c n' where
        c: "docs_docs x = Some c"
           "Docs_close L d s = Inr (closed_docs d x r db n' s)"
           "wf (closed_docs d x r db n' s)"
           "dom (handles n') = dom (handles (native s))"
           "dom (cursors n') = dom (cursors (native s)) - {c}"
           "fresh n' = fresh (native s)"
        by (metis option.inject)
      let ?s1 = "closed_docs d x r db n' s"
      let ?db1 = "db\<lparr>db_docss := (db_docss db)(docs_id x := None)\<rparr>"
      have h1: "heap_db ?s1 r = Some ?db1" by simp
      have li: "\<forall>j. j < i + 1 \<longrightarrow> db_docss ?db1 j = None"
        using word_less_inc [OF True] 1(5) x(4) by auto
      have dc: "Docs_Close L d s = Inr ?s1" using c(2) by (simp add: Docs_Close_def)
      from 1(2) [OF 1(4) True Some dc c(3) h1 li] obtain s' where
        s': "Close_loop L r (i + 1) ?s1 = Inr s'" "wf s'" "loop_post r ?s1 s'" by blast
      from loop_post_step [OF x(1,2,3) 1(4) c(1,4,5,6) s'(3)] have "loop_post r s s'" .
      with s'(1,2) True Some 1(4) dc show ?thesis
        by (simp add: Close_loop.simps [of L r i s])
    qed
  qed
qed

lemma closed_db_simps [simp]:
  "heap_db (closed_db r db n' s) r0 =
     (if r0 = r then Some (db\<lparr>db_opened := False\<rparr>) else heap_db s r0)"
  "heap_docs (closed_db r db n' s) = heap_docs s"
  "native (closed_db r db n' s) = n'"
  "new_db (closed_db r db n' s) = new_db s"
  "new_docs (closed_db r db n' s) = new_docs s"
  "fin_db (closed_db r db n' s) = fin_db s"
  "fin_docs (closed_db r db n' s) = fin_docs s"
  by (simp_all add: closed_db_def)

lemma closed_db_wf:
  assumes "wf s" "heap_db s r = Some db" "db_opened db" "db_docss db = Map.empty"
    "dom (handles n') = dom (handles (native s)) - {db_db db}"
    "dom (cursors n') = dom (cursors (native s))"
    "fresh n' = fresh (native s)"
  shows "wf (closed_db r db n' s)"
proof -
  let ?s' = "closed_db r db n' s"
  note inv = wfD [OF assms(1)]
  have "inv_alloc ?s'"
    using inv(1) assms(2,5,6,7) unfolding inv_alloc_def
    by (auto simp: dom_def split: if_splits)
  moreover have "inv_children ?s'"
    unfolding inv_children_def
  proof (intro allI impI)
    fix r0 db0 i d0
    assume h: "heap_db ?s' r0 = Some db0" and k: "db_docss db0 i = Some d0"
    from h k assms(4) have "r0 \<noteq> r" by (auto split: if_splits)
    with h have "heap_db s r0 = Some db0" by simp
    from inv_childrenD [OF inv(2) this k]
    show "i < db_next db0 \<and>
        (\<exists>y. heap_docs ?s' d0 = Some y \<and> docs_opened y \<and> docs_db y = Some r0 \<and> docs_id y = i)"
      by auto
  qed
  moreover have "inv_owner ?s'"
    unfolding inv_owner_def
  proof (intro allI impI)
    fix d0 x0
    assume "heap_docs ?s' d0 = Some x0" and o: "docs_opened x0"
    then have x0: "heap_docs s d0 = Some x0" by simp
    from inv_ownerD [OF inv(3) x0 o] obtain r0 db0 where
      o0: "docs_db x0 = Some r0" "heap_db s r0 = Some db0" "db_opened db0"
          "db_docss db0 (docs_id x0) = Some d0"
      by blast
    from o0 assms(2,4) have "r0 \<noteq> r" by auto
    with o0
    show "\<exists>ra dba. docs_db x0 = Some ra \<and> heap_db ?s' ra = Some dba \<and>
           db_opened dba \<and> db_docss dba (docs_id x0) = Some d0"
      by simp
  qed
  moreover have "inv_live ?s'"
    unfolding inv_live_def
  proof (intro conjI allI impI)
    fix r0 db0
    assume "heap_db ?s' r0 = Some db0" "db_opened db0"
    then have ne: "r0 \<noteq> r" and db0: "heap_db s r0 = Some db0" "db_opened db0"
      by (auto split: if_splits)
    have "db_db db0 \<noteq> db_db db"
    proof
      assume "db_db db0 = db_db db"
      from inv_live_handle_inj [OF inv(4) db0(1) assms(2) db0(2) assms(3) this] ne
      show False by simp
    qed
    with inv_live_handleD [OF inv(4) db0] assms(5)
    show "db_db db0 \<in> dom (handles (native ?s'))" by simp
  next
    fix r0 r1 db0 db1
    assume "heap_db ?s' r0 = Some db0" "heap_db ?s' r1 = Some db1" "db_opened db0" "db_opened db1"
      "db_db db0 = db_db db1"
    then have *: "heap_db s r0 = Some db0" "heap_db s r1 = Some db1" "db_opened db0" "db_opened db1"
       "db_db db0 = db_db db1"
      by (auto split: if_splits)
    from inv_live_handle_inj [OF inv(4) *] show "r0 = r1" .
  next
    fix d0 x0
    assume "heap_docs ?s' d0 = Some x0" "docs_opened x0"
    then have x0: "heap_docs s d0 = Some x0" "docs_opened x0" by simp_all
    from inv_live_cursorD [OF inv(4) x0] obtain c0 where
      "docs_docs x0 = Some c0" "c0 \<in> dom (cursors (native s))" by blast
    with assms(6)
    show "\<exists>c. docs_docs x0 = Some c \<and> c \<in> dom (cursors (native ?s'))"
      by simp
  next
    fix d0 d1 x0 x1
    assume "heap_docs ?s' d0 = Some x0" "heap_docs ?s' d1 = Some x1" "docs_opened x0"
      "docs_opened x1" "docs_docs x0 = docs_docs x1"
    then have *: "heap_docs s d0 = Some x0" "heap_docs s d1 = Some x1" "docs_opened x0"
      "docs_opened x1" "docs_docs x0 = docs_docs x1" by simp_all
    from inv_live_cursor_inj [OF inv(4) *] show "d0 = d1" .
  qed
  ultimately show ?thesis by (simp add: wf_def)
qed

lemma Db_Close_wf:
  assumes "wf s" "heap_db s r = Some db" "db_opened db"
  shows "\<exists>s'. Db_Close L r s = Inr s' \<and> wf s' \<and> close_post r s s'"
proof -
  from Close_loop_wf [OF assms(1,2), of 0 L] obtain s1 where
    s1: "Close_loop L r 0 s = Inr s1" "wf s1" "loop_post r s s1" by auto
  note p = s1(3) [unfolded loop_post_def]
  let ?db1 = "db\<lparr>db_docss := Map.empty\<rparr>"
  from p assms(2) have h1: "heap_db s1 r = Some ?db1" by simp
  from inv_live_handleD [OF wfD(4) [OF assms(1)] assms(2,3)] p
  have "db_db db \<in> dom (handles (native s1))" by simp
  then obtain t where "handles (native s1) (db_db db) = Some t" by blast
  from free_total [OF this] obtain n2 where n2: "c_dbxml_free L (db_db db) (native s1) = Inr n2"
    by blast
  note sh = free_shape [OF n2]
  let ?s2 = "closed_db r ?db1 n2 s1"
  have c: "Db_Close L r s = Inr ?s2"
    using assms(2,3) s1(1) n2 h1 by (simp add: Db_Close_def closed_db_def)
  have w: "wf ?s2"
    by (rule closed_db_wf [OF s1(2) h1]) (use assms(3) sh in simp_all)
  have "close_post r s ?s2"
    unfolding close_post_def using p sh assms(2) by simp
  with c w show ?thesis by blast
qed

lemma added_db_simps [simp]:
  "heap_db (added_db db n' F s) r0 = (if r0 = new_db s then Some db else heap_db s r0)"
  "heap_docs (added_db db n' F s) = heap_docs s"
  "native (added_db db n' F s) = n'"
  "new_db (added_db db n' F s) = Suc (new_db s)"
  "new_docs (added_db db n' F s) = new_docs s"
  "fin_db (added_db db n' F s) = F"
  "fin_docs (added_db db n' F s) = fin_docs s"
  by (simp_all add: added_db_def)

lemma inv_alloc_db: "inv_alloc s \<Longrightarrow> heap_db s r = Some db \<Longrightarrow> r < new_db s"
  unfolding inv_alloc_def by blast

lemma inv_alloc_docs: "inv_alloc s \<Longrightarrow> heap_docs s d = Some x \<Longrightarrow> d < new_docs s"
  unfolding inv_alloc_def by blast

lemma inv_alloc_handle: "inv_alloc s \<Longrightarrow> h \<in> dom (handles (native s)) \<Longrightarrow> h < fresh (native s)"
  unfolding inv_alloc_def by blast

lemma inv_alloc_cursor: "inv_alloc s \<Longrightarrow> c \<in> dom (cursors (native s)) \<Longrightarrow> c < fresh (native s)"
  unfolding inv_alloc_def by blast

lemma added_db_wf:
  assumes "wf s" "db_docss db = Map.empty"
    "db_opened db \<Longrightarrow> db_db db = fresh (native s)"
    "dom (handles n') = (if db_opened db then insert (fresh (native s)) (dom (handles (native s)))
                         else dom (handles (native s)))"
    "dom (cursors n') = dom (cursors (native s))"
    "fresh n' = Suc (fresh (native s))"
  shows "wf (added_db db n' F s)"
proof -
  let ?s' = "added_db db n' F s"
  note inv = wfD [OF assms(1)]
  have old: "r0 \<noteq> new_db s" if "heap_db s r0 = Some db0" for r0 db0
    using inv_alloc_db [OF inv(1) that] by simp
  have "inv_alloc ?s'"
    unfolding inv_alloc_def
  proof (intro conjI allI impI)
    fix r0 assume "r0 \<in> dom (heap_db ?s')"
    then have "r0 = new_db s \<or> r0 \<in> dom (heap_db s)" by (auto split: if_splits)
    with inv(1) show "r0 < new_db ?s'" unfolding inv_alloc_def by auto
  next
    fix d0 assume "d0 \<in> dom (heap_docs ?s')"
    with inv(1) show "d0 < new_docs ?s'" unfolding inv_alloc_def by simp
  next
    fix h assume "h \<in> dom (handles (native ?s'))"
    with assms(4) have "h = fresh (native s) \<or> h \<in> dom (handles (native s))"
      by (auto split: if_splits)
    with inv_alloc_handle [OF inv(1)] assms(6) show "h < fresh (native ?s')" by fastforce
  next
    fix c assume "c \<in> dom (cursors (native ?s'))"
    with assms(5) have "c \<in> dom (cursors (native s))" by simp
    from inv_alloc_cursor [OF inv(1) this] assms(6) show "c < fresh (native ?s')" by simp
  qed
  moreover have "inv_children ?s'"
    unfolding inv_children_def
  proof (intro allI impI)
    fix r0 db0 i d0
    assume h: "heap_db ?s' r0 = Some db0" and k: "db_docss db0 i = Some d0"
    from h k assms(2) have "heap_db s r0 = Some db0" by (auto split: if_splits)
    from inv_childrenD [OF inv(2) this k]
    show "i < db_next db0 \<and>
        (\<exists>y. heap_docs ?s' d0 = Some y \<and> docs_opened y \<and> docs_db y = Some r0 \<and> docs_id y = i)"
      by auto
  qed
  moreover have "inv_owner ?s'"
    unfolding inv_owner_def
  proof (intro allI impI)
    fix d0 x0
    assume "heap_docs ?s' d0 = Some x0" and o: "docs_opened x0"
    then have x0: "heap_docs s d0 = Some x0" by simp
    from inv_ownerD [OF inv(3) x0 o] obtain r0 db0 where
      o0: "docs_db x0 = Some r0" "heap_db s r0 = Some db0" "db_opened db0"
          "db_docss db0 (docs_id x0) = Some d0"
      by blast
    from old [OF o0(2)] o0
    show "\<exists>ra dba. docs_db x0 = Some ra \<and> heap_db ?s' ra = Some dba \<and>
           db_opened dba \<and> db_docss dba (docs_id x0) = Some d0"
      by simp
  qed
  moreover have "inv_live ?s'"
    unfolding inv_live_def
  proof (intro conjI allI impI)
    fix r0 db0
    assume h: "heap_db ?s' r0 = Some db0" and o: "db_opened db0"
    show "db_db db0 \<in> dom (handles (native ?s'))"
    proof (cases "r0 = new_db s")
      case True
      with h o assms(3,4) show ?thesis by simp
    next
      case False
      with h have "heap_db s r0 = Some db0" by simp
      from inv_live_handleD [OF inv(4) this o] assms(4) show ?thesis by simp
    qed
  next
    fix r0 r1 db0 db1
    assume h: "heap_db ?s' r0 = Some db0" "heap_db ?s' r1 = Some db1" and
      o: "db_opened db0" "db_opened db1" and e: "db_db db0 = db_db db1"
    have new_old: False if "heap_db s ra = Some dba" "db_opened dba" "db_opened db"
        "db_db dba = db_db db" for ra dba
    proof -
      from inv_alloc_handle [OF inv(1) inv_live_handleD [OF inv(4) that(1,2)]] that(4) assms(3) [OF that(3)]
      show False by simp
    qed
    show "r0 = r1"
    proof (cases "r0 = new_db s")
      case r0: True
      show ?thesis
      proof (cases "r1 = new_db s")
        case True
        with r0 show ?thesis by simp
      next
        case False
        with h r0 o e new_old [of r1 db1] show ?thesis by simp
      qed
    next
      case r0: False
      show ?thesis
      proof (cases "r1 = new_db s")
        case True
        with h r0 o e new_old [of r0 db0] show ?thesis by simp
      next
        case False
        with r0 h have *: "heap_db s r0 = Some db0" "heap_db s r1 = Some db1" by simp_all
        from inv_live_handle_inj [OF inv(4) * o e] show ?thesis .
      qed
    qed
  next
    fix d0 x0
    assume "heap_docs ?s' d0 = Some x0" "docs_opened x0"
    then have x0: "heap_docs s d0 = Some x0" "docs_opened x0" by simp_all
    from inv_live_cursorD [OF inv(4) x0] obtain c0 where
      "docs_docs x0 = Some c0" "c0 \<in> dom (cursors (native s))" by blast
    with assms(5)
    show "\<exists>c. docs_docs x0 = Some c \<and> c \<in> dom (cursors (native ?s'))"
      by simp
  next
    fix d0 d1 x0 x1
    assume "heap_docs ?s' d0 = Some x0" "heap_docs ?s' d1 = Some x1" "docs_opened x0"
      "docs_opened x1" "docs_docs x0 = docs_docs x1"
    then have *: "heap_docs s d0 = Some x0" "heap_docs s d1 = Some x1" "docs_opened x0"
      "docs_opened x1" "docs_docs x0 = docs_docs x1" by simp_all
    from inv_live_cursor_inj [OF inv(4) *] show "d0 = d1" .
  qed
  ultimately show ?thesis by (simp add: wf_def)
qed

lemma error_total:
  "handles n h = Some t \<Longrightarrow> c_dbxml_error h n = Inr (if error t then 1 else 0, enter F_error h n)"
  by (simp add: c_dbxml_error_def)

lemma errstring_total:
  "handles n h = Some t \<Longrightarrow> c_dbxml_errstring h n = Inr (errstring t, enter F_errstring h n)"
  by (simp add: c_dbxml_errstring_def)

lemma enter_frame [simp]:
  "handles (enter f a n) = handles n"
  "cursors (enter f a n) = cursors n"
  "fresh (enter f a n) = fresh n"
  "engine (enter f a n) = engine n"
  "trace (enter f a n) = trace n @ [Call f a]"
  by (simp_all add: enter_def)

text \<open>Open returns, with one of two worlds.\<close>

lemma Open_result:
  obtains (opened) n' where
      "Open L filename s =
         Inr ((new_db s, None),
              added_db \<lparr>db_opened = True, db_db = fresh (native s), db_next = 0, db_docss = Map.empty\<rparr>
                n' (insert (new_db s) (fin_db s)) s)"
      "dom (handles n') = insert (fresh (native s)) (dom (handles (native s)))"
      "dom (cursors n') = dom (cursors (native s))"
      "fresh n' = Suc (fresh (native s))"
  | (failed) n' msg where
      "Open L filename s =
         Inr ((new_db s, Some (errors_New msg)),
              added_db \<lparr>db_opened = False, db_db = fresh (native s), db_next = 0, db_docss = Map.empty\<rparr>
                n' (fin_db s) s)"
      "dom (handles n') = dom (handles (native s)) - {fresh (native s)}"
      "dom (cursors n') = dom (cursors (native s))"
      "fresh n' = Suc (fresh (native s))"
proof -
  obtain h n1 where o: "c_dbxml_open L filename (native s) = (h, n1)"
    by (cases "c_dbxml_open L filename (native s)")
  note sh = open_shape [OF o]
  from sh have "h \<in> dom (handles n1)" by simp
  then obtain t where t: "handles n1 h = Some t" by blast
  let ?n2 = "enter F_error h n1"
  note e = error_total [OF t]
  show thesis
  proof (cases "error t")
    case False
    have "Open L filename s =
         Inr ((new_db s, None),
              added_db \<lparr>db_opened = True, db_db = fresh (native s), db_next = 0, db_docss = Map.empty\<rparr>
                ?n2 (insert (new_db s) (fin_db s)) s)"
      using o e False sh by (simp add: Open_def added_db_def Let_def)
    then show ?thesis
      by (rule opened) (use sh in simp_all)
  next
    case True
    have t2: "handles ?n2 h = Some t" using t by simp
    let ?n3 = "enter F_errstring h ?n2"
    have t3: "handles ?n3 h = Some t" using t by simp
    from free_total [OF t3] obtain n4 where f: "c_dbxml_free L h ?n3 = Inr n4" by blast
    note fs = free_shape [OF f]
    have "Open L filename s =
         Inr ((new_db s, Some (errors_New (errstring t))),
              added_db \<lparr>db_opened = False, db_db = fresh (native s), db_next = 0, db_docss = Map.empty\<rparr>
                n4 (fin_db s) s)"
      using o e True sh errstring_total [OF t2] f by (simp add: Open_def added_db_def Let_def)
    then show ?thesis
      by (rule failed) (use sh fs in auto)
  qed
qed

lemma Open_wf:
  assumes "wf s" "Open L filename s = Inr (x, s')"
  shows "wf s'"
proof (cases rule: Open_result [of L filename s])
  case (opened n')
  with assms(2) have "s' = added_db \<lparr>db_opened = True, db_db = fresh (native s), db_next = 0, db_docss = Map.empty\<rparr>
                n' (insert (new_db s) (fin_db s)) s" by simp
  moreover have "wf \<dots>"
    by (rule added_db_wf [OF assms(1)]) (use opened in simp_all)
  ultimately show ?thesis by simp
next
  case (failed n' msg)
  with assms(2) have "s' = added_db \<lparr>db_opened = False, db_db = fresh (native s), db_next = 0, db_docss = Map.empty\<rparr>
                n' (fin_db s) s" by simp
  moreover have "fresh (native s) \<notin> dom (handles (native s))"
    using inv_alloc_handle [OF wfD(1) [OF assms(1)], of "fresh (native s)"] by auto
  then have "wf (added_db \<lparr>db_opened = False, db_db = fresh (native s), db_next = 0, db_docss = Map.empty\<rparr>
                n' (fin_db s) s)"
    by (intro added_db_wf [OF assms(1)]) (use failed in simp_all)
  ultimately show ?thesis by simp
qed

lemma added_docs_simps [simp]:
  "heap_db (added_docs y n' s) = heap_db s"
  "heap_docs (added_docs y n' s) d0 = (if d0 = new_docs s then Some y else heap_docs s d0)"
  "native (added_docs y n' s) = n'"
  "new_db (added_docs y n' s) = new_db s"
  "new_docs (added_docs y n' s) = Suc (new_docs s)"
  "fin_db (added_docs y n' s) = fin_db s"
  "fin_docs (added_docs y n' s) = fin_docs s"
  by (simp_all add: added_docs_def)

lemma registered_simps [simp]:
  "heap_db (registered r db c n' s) r0 =
     (if r0 = r
      then Some (db\<lparr>db_next := db_next db + 1, db_docss := (db_docss db)(db_next db \<mapsto> new_docs s)\<rparr>)
      else heap_db s r0)"
  "heap_docs (registered r db c n' s) d0 =
     (if d0 = new_docs s
      then Some \<lparr>docs_db = Some r, docs_id = db_next db, docs_started = False, docs_opened = True,
                 docs_docs = Some c\<rparr>
      else heap_docs s d0)"
  "native (registered r db c n' s) = n'"
  "new_db (registered r db c n' s) = new_db s"
  "new_docs (registered r db c n' s) = Suc (new_docs s)"
  "fin_db (registered r db c n' s) = fin_db s"
  "fin_docs (registered r db c n' s) = insert (new_docs s) (fin_docs s)"
  by (simp_all add: registered_def)

lemma started_simps [simp]:
  "heap_db (started d x n' s) = heap_db s"
  "heap_docs (started d x n' s) d0 =
     (if d0 = d then Some (x\<lparr>docs_started := True\<rparr>) else heap_docs s d0)"
  "native (started d x n' s) = n'"
  "new_db (started d x n' s) = new_db s"
  "new_docs (started d x n' s) = new_docs s"
  "fin_db (started d x n' s) = fin_db s"
  "fin_docs (started d x n' s) = fin_docs s"
  by (simp_all add: started_def)

lemma added_docs_wf:
  assumes "wf s" "\<not> docs_opened y"
    "dom (handles n') = dom (handles (native s))"
    "dom (cursors (native s)) \<subseteq> dom (cursors n')"
    "\<forall>c. c \<in> dom (cursors n') \<longrightarrow> c < fresh n'"
    "fresh (native s) \<le> fresh n'"
  shows "wf (added_docs y n' s)"
proof -
  let ?s' = "added_docs y n' s"
  note inv = wfD [OF assms(1)]
  have old: "d0 \<noteq> new_docs s" if "heap_docs s d0 = Some x0" for d0 x0
    using inv_alloc_docs [OF inv(1) that] by simp
  have opn: "heap_docs s d0 = Some x0" if "heap_docs ?s' d0 = Some x0" "docs_opened x0" for d0 x0
    using that assms(2) by (auto split: if_splits)
  have "inv_alloc ?s'"
    unfolding inv_alloc_def
  proof (intro conjI allI impI)
    fix r0 assume "r0 \<in> dom (heap_db ?s')"
    with inv(1) show "r0 < new_db ?s'" unfolding inv_alloc_def by simp
  next
    fix d0 assume "d0 \<in> dom (heap_docs ?s')"
    then have "d0 = new_docs s \<or> d0 \<in> dom (heap_docs s)" by (auto split: if_splits)
    with inv(1) show "d0 < new_docs ?s'" unfolding inv_alloc_def by auto
  next
    fix h assume "h \<in> dom (handles (native ?s'))"
    with assms(3) have "h \<in> dom (handles (native s))" by simp
    from inv_alloc_handle [OF inv(1) this] assms(6) show "h < fresh (native ?s')" by simp
  next
    fix c assume "c \<in> dom (cursors (native ?s'))"
    with assms(5) show "c < fresh (native ?s')" by simp
  qed
  moreover have "inv_children ?s'"
    unfolding inv_children_def
  proof (intro allI impI)
    fix r0 db0 i d0
    assume h: "heap_db ?s' r0 = Some db0" and k: "db_docss db0 i = Some d0"
    then have h': "heap_db s r0 = Some db0" by simp
    from inv_childrenD [OF inv(2) h' k] obtain x0 where
      x0: "i < db_next db0" "heap_docs s d0 = Some x0" "docs_opened x0" "docs_db x0 = Some r0"
       "docs_id x0 = i" by blast
    with old [OF x0(2)]
    show "i < db_next db0 \<and>
        (\<exists>y'. heap_docs ?s' d0 = Some y' \<and> docs_opened y' \<and> docs_db y' = Some r0 \<and> docs_id y' = i)"
      by simp
  qed
  moreover have "inv_owner ?s'"
    unfolding inv_owner_def
  proof (intro allI impI)
    fix d0 x0
    assume a: "heap_docs ?s' d0 = Some x0" and o: "docs_opened x0"
    from inv_ownerD [OF inv(3) opn [OF a o] o] obtain r0 db0 where
      o0: "docs_db x0 = Some r0" "heap_db s r0 = Some db0" "db_opened db0"
          "db_docss db0 (docs_id x0) = Some d0"
      by blast
    then show "\<exists>ra dba. docs_db x0 = Some ra \<and> heap_db ?s' ra = Some dba \<and>
           db_opened dba \<and> db_docss dba (docs_id x0) = Some d0"
      by simp
  qed
  moreover have "inv_live ?s'"
    unfolding inv_live_def
  proof (intro conjI allI impI)
    fix r0 db0
    assume "heap_db ?s' r0 = Some db0" "db_opened db0"
    then have "heap_db s r0 = Some db0" "db_opened db0" by simp_all
    from inv_live_handleD [OF inv(4) this] assms(3)
    show "db_db db0 \<in> dom (handles (native ?s'))" by simp
  next
    fix r0 r1 db0 db1
    assume "heap_db ?s' r0 = Some db0" "heap_db ?s' r1 = Some db1" "db_opened db0" "db_opened db1"
      "db_db db0 = db_db db1"
    then have *: "heap_db s r0 = Some db0" "heap_db s r1 = Some db1" "db_opened db0" "db_opened db1"
       "db_db db0 = db_db db1"
      by simp_all
    from inv_live_handle_inj [OF inv(4) *] show "r0 = r1" .
  next
    fix d0 x0
    assume a: "heap_docs ?s' d0 = Some x0" and o: "docs_opened x0"
    from inv_live_cursorD [OF inv(4) opn [OF a o] o] obtain c0 where
      "docs_docs x0 = Some c0" "c0 \<in> dom (cursors (native s))" by blast
    with assms(4)
    show "\<exists>c. docs_docs x0 = Some c \<and> c \<in> dom (cursors (native ?s'))"
      by auto
  next
    fix d0 d1 x0 x1
    assume a: "heap_docs ?s' d0 = Some x0" "heap_docs ?s' d1 = Some x1" and o: "docs_opened x0"
      "docs_opened x1" and e: "docs_docs x0 = docs_docs x1"
    from inv_live_cursor_inj [OF inv(4) opn [OF a(1) o(1)] opn [OF a(2) o(2)] o e] show "d0 = d1" .
  qed
  ultimately show ?thesis by (simp add: wf_def)
qed

lemma started_wf:
  assumes "wf s" "heap_docs s d = Some x" "same_shape (native s) n'"
  shows "wf (started d x n' s)"
proof -
  let ?s' = "started d x n' s"
  note inv = wfD [OF assms(1)]
  from assms(3) have sh: "dom (handles n') = dom (handles (native s))"
    "dom (cursors n') = dom (cursors (native s))" "fresh n' = fresh (native s)"
    by (simp_all add: same_shape_def shape_def)
  have bk: "\<exists>x1. heap_docs s d0 = Some x1 \<and> docs_opened x1 = docs_opened x0 \<and>
      docs_db x1 = docs_db x0 \<and> docs_id x1 = docs_id x0 \<and> docs_docs x1 = docs_docs x0"
    if "heap_docs ?s' d0 = Some x0" for d0 x0
    using that assms(2) by (auto split: if_splits)
  have fw: "\<exists>x1. heap_docs ?s' d0 = Some x1 \<and> docs_opened x1 = docs_opened x0 \<and>
      docs_db x1 = docs_db x0 \<and> docs_id x1 = docs_id x0 \<and> docs_docs x1 = docs_docs x0"
    if "heap_docs s d0 = Some x0" for d0 x0
    using that assms(2) by auto
  have "inv_alloc ?s'"
    using inv(1) assms(2) sh unfolding inv_alloc_def
    by (auto simp: dom_def split: if_splits)
  moreover have "inv_children ?s'"
    unfolding inv_children_def
  proof (intro allI impI)
    fix r0 db0 i d0
    assume h: "heap_db ?s' r0 = Some db0" and k: "db_docss db0 i = Some d0"
    then have h': "heap_db s r0 = Some db0" by simp
    from inv_childrenD [OF inv(2) h' k] obtain x0 where
      x0: "i < db_next db0" "heap_docs s d0 = Some x0" "docs_opened x0" "docs_db x0 = Some r0"
       "docs_id x0 = i" by blast
    from fw [OF x0(2)] x0
    show "i < db_next db0 \<and>
        (\<exists>y'. heap_docs ?s' d0 = Some y' \<and> docs_opened y' \<and> docs_db y' = Some r0 \<and> docs_id y' = i)"
      by auto
  qed
  moreover have "inv_owner ?s'"
    unfolding inv_owner_def
  proof (intro allI impI)
    fix d0 x0
    assume a: "heap_docs ?s' d0 = Some x0" and o: "docs_opened x0"
    from bk [OF a] o obtain x1 where x1: "heap_docs s d0 = Some x1" "docs_opened x1"
      "docs_db x1 = docs_db x0" "docs_id x1 = docs_id x0" by auto
    from inv_ownerD [OF inv(3) x1(1,2)] obtain r0 db0 where
      o0: "docs_db x1 = Some r0" "heap_db s r0 = Some db0" "db_opened db0"
          "db_docss db0 (docs_id x1) = Some d0"
      by blast
    have "docs_db x0 = Some r0" using x1(3) o0(1) by simp
    moreover have "heap_db ?s' r0 = Some db0" using o0(2) by simp
    moreover have "db_docss db0 (docs_id x0) = Some d0" using o0(4) x1(4) by simp
    ultimately show "\<exists>ra dba. docs_db x0 = Some ra \<and> heap_db ?s' ra = Some dba \<and>
           db_opened dba \<and> db_docss dba (docs_id x0) = Some d0"
      using o0(3) by blast
  qed
  moreover have "inv_live ?s'"
    unfolding inv_live_def
  proof (intro conjI allI impI)
    fix r0 db0
    assume "heap_db ?s' r0 = Some db0" "db_opened db0"
    then have "heap_db s r0 = Some db0" "db_opened db0" by simp_all
    from inv_live_handleD [OF inv(4) this] sh
    show "db_db db0 \<in> dom (handles (native ?s'))" by simp
  next
    fix r0 r1 db0 db1
    assume "heap_db ?s' r0 = Some db0" "heap_db ?s' r1 = Some db1" "db_opened db0" "db_opened db1"
      "db_db db0 = db_db db1"
    then have *: "heap_db s r0 = Some db0" "heap_db s r1 = Some db1" "db_opened db0" "db_opened db1"
       "db_db db0 = db_db db1"
      by simp_all
    from inv_live_handle_inj [OF inv(4) *] show "r0 = r1" .
  next
    fix d0 x0
    assume a: "heap_docs ?s' d0 = Some x0" and o: "docs_opened x0"
    from bk [OF a] o obtain x1 where x1: "heap_docs s d0 = Some x1" "docs_opened x1"
      "docs_docs x1 = docs_docs x0" by auto
    from inv_live_cursorD [OF inv(4) x1(1,2)] obtain c0 where
      c0: "docs_docs x1 = Some c0" "c0 \<in> dom (cursors (native s))" by blast
    have "docs_docs x0 = Some c0" using c0(1) x1(3) by simp
    moreover have "c0 \<in> dom (cursors (native ?s'))" using c0(2) sh by simp
    ultimately show "\<exists>c. docs_docs x0 = Some c \<and> c \<in> dom (cursors (native ?s'))"
      by blast
  next
    fix d0 d1 x0 x1
    assume a: "heap_docs ?s' d0 = Some x0" "heap_docs ?s' d1 = Some x1" and o: "docs_opened x0"
      "docs_opened x1" and e: "docs_docs x0 = docs_docs x1"
    from bk [OF a(1)] o obtain y0 where y0: "heap_docs s d0 = Some y0" "docs_opened y0"
      "docs_docs y0 = docs_docs x0" by auto
    from bk [OF a(2)] o obtain y1 where y1: "heap_docs s d1 = Some y1" "docs_opened y1"
      "docs_docs y1 = docs_docs x1" by auto
    from inv_live_cursor_inj [OF inv(4) y0(1) y1(1) y0(2) y1(2)] y0 y1 e show "d0 = d1" by simp
  qed
  ultimately show ?thesis by (simp add: wf_def)
qed

lemma word_less_inc_self:
  fixes k :: "64 word"
  assumes "k + 1 \<noteq> 0"
  shows "k < k + 1"
proof -
  from assms have "1 + k \<noteq> 0" by (simp add: add.commute)
  from unatSuc [OF this] have "unat (k + 1) = Suc (unat k)" by (simp add: add.commute)
  then show ?thesis by (simp add: word_less_nat_alt)
qed

lemma registered_wf:
  assumes "wf s" "heap_db s r = Some db" "db_opened db" "db_next db + 1 \<noteq> 0"
    "c = fresh (native s)"
    "dom (handles n') = dom (handles (native s))"
    "dom (cursors n') = insert c (dom (cursors (native s)))"
    "fresh n' = Suc (fresh (native s))"
  shows "wf (registered r db c n' s)"
proof -
  let ?s' = "registered r db c n' s"
  let ?d = "new_docs s"
  let ?x = "\<lparr>docs_db = Some r, docs_id = db_next db, docs_started = False, docs_opened = True,
            docs_docs = Some c\<rparr>"
  note inv = wfD [OF assms(1)]
  note lt = word_less_inc_self [OF assms(4)]
  have old: "d0 \<noteq> ?d" if "heap_docs s d0 = Some x0" for d0 x0
    using inv_alloc_docs [OF inv(1) that] by simp
  have oldc: "c0 \<noteq> c" if "c0 \<in> dom (cursors (native s))" for c0
    using inv_alloc_cursor [OF inv(1) that] assms(5) by simp
  have key: "i < db_next db \<and> d0 \<noteq> ?d" if "db_docss db i = Some d0" for i d0
  proof -
    from inv_childrenD [OF inv(2) assms(2) that] obtain x0 where
      "i < db_next db" "heap_docs s d0 = Some x0" by blast
    with old show ?thesis by blast
  qed
  have "inv_alloc ?s'"
    unfolding inv_alloc_def
  proof (intro conjI allI impI)
    fix r0 assume "r0 \<in> dom (heap_db ?s')"
    with assms(2) have "r0 \<in> dom (heap_db s)" by (auto split: if_splits)
    with inv(1) show "r0 < new_db ?s'" unfolding inv_alloc_def by simp
  next
    fix d0 assume "d0 \<in> dom (heap_docs ?s')"
    then have "d0 = new_docs s \<or> d0 \<in> dom (heap_docs s)" by (auto split: if_splits)
    with inv(1) show "d0 < new_docs ?s'" unfolding inv_alloc_def by auto
  next
    fix h assume "h \<in> dom (handles (native ?s'))"
    with assms(6) have "h \<in> dom (handles (native s))" by simp
    from inv_alloc_handle [OF inv(1) this] assms(8) show "h < fresh (native ?s')" by simp
  next
    fix c0 assume "c0 \<in> dom (cursors (native ?s'))"
    with assms(7) have "c0 = c \<or> c0 \<in> dom (cursors (native s))" by simp
    with inv_alloc_cursor [OF inv(1)] assms(5,8) show "c0 < fresh (native ?s')" by fastforce
  qed
  moreover have "inv_children ?s'"
    unfolding inv_children_def
  proof (intro allI impI)
    fix r0 db0 i d0
    assume h: "heap_db ?s' r0 = Some db0" and k: "db_docss db0 i = Some d0"
    show "i < db_next db0 \<and>
        (\<exists>y'. heap_docs ?s' d0 = Some y' \<and> docs_opened y' \<and> docs_db y' = Some r0 \<and> docs_id y' = i)"
    proof (cases "r0 = r")
      case False
      with h have h': "heap_db s r0 = Some db0" by simp
      from inv_childrenD [OF inv(2) h' k] obtain x0 where
        x0: "i < db_next db0" "heap_docs s d0 = Some x0" "docs_opened x0" "docs_db x0 = Some r0"
         "docs_id x0 = i" by blast
      with old [OF x0(2)] show ?thesis by simp
    next
      case True
      with h have db0: "db0 = db\<lparr>db_next := db_next db + 1,
          db_docss := (db_docss db)(db_next db \<mapsto> ?d)\<rparr>" by simp
      show ?thesis
      proof (cases "i = db_next db")
        case i: True
        with db0 k have "d0 = ?d" by simp
        with i db0 True lt show ?thesis by simp
      next
        case i: False
        with db0 k have k': "db_docss db i = Some d0" by simp
        from inv_childrenD [OF inv(2) assms(2) k'] obtain x0 where
          x0: "i < db_next db" "heap_docs s d0 = Some x0" "docs_opened x0" "docs_db x0 = Some r"
           "docs_id x0 = i" by blast
        from x0(1) lt have "i < db_next db + 1" by simp
        with x0 old [OF x0(2)] db0 True show ?thesis by simp
      qed
    qed
  qed
  moreover have "inv_owner ?s'"
    unfolding inv_owner_def
  proof (intro allI impI)
    fix d0 x0
    assume a: "heap_docs ?s' d0 = Some x0" and o: "docs_opened x0"
    show "\<exists>ra dba. docs_db x0 = Some ra \<and> heap_db ?s' ra = Some dba \<and>
           db_opened dba \<and> db_docss dba (docs_id x0) = Some d0"
    proof (cases "d0 = ?d")
      case True
      with a have "x0 = ?x" by simp
      with True assms(3) show ?thesis by simp
    next
      case False
      with a have x0: "heap_docs s d0 = Some x0" by simp
      from inv_ownerD [OF inv(3) x0 o] obtain r0 db0 where
        o0: "docs_db x0 = Some r0" "heap_db s r0 = Some db0" "db_opened db0"
            "db_docss db0 (docs_id x0) = Some d0"
        by blast
      show ?thesis
      proof (cases "r0 = r")
        case r: False
        with o0 show ?thesis by simp
      next
        case r: True
        with o0 assms(2) have e: "db0 = db" by simp
        with o0 key [of "docs_id x0" d0] have "docs_id x0 \<noteq> db_next db" by auto
        with r e o0 show ?thesis by simp
      qed
    qed
  qed
  moreover have "inv_live ?s'"
    unfolding inv_live_def
  proof (intro conjI allI impI)
    fix r0 db0
    assume "heap_db ?s' r0 = Some db0" "db_opened db0"
    with assms(2) obtain db1 where db1: "heap_db s r0 = Some db1" "db_opened db1"
      "db_db db1 = db_db db0"
      by (auto split: if_splits)
    from inv_live_handleD [OF inv(4) db1(1,2)] db1(3) assms(6)
    show "db_db db0 \<in> dom (handles (native ?s'))" by simp
  next
    fix r0 r1 db0 db1
    assume "heap_db ?s' r0 = Some db0" "heap_db ?s' r1 = Some db1" "db_opened db0" "db_opened db1"
      "db_db db0 = db_db db1"
    with assms(2) obtain db0' db1' where *: "heap_db s r0 = Some db0'" "heap_db s r1 = Some db1'"
       "db_opened db0'" "db_opened db1'" "db_db db0' = db_db db1'"
      by (auto split: if_splits)
    from inv_live_handle_inj [OF inv(4) *] show "r0 = r1" .
  next
    fix d0 x0
    assume a: "heap_docs ?s' d0 = Some x0" and o: "docs_opened x0"
    show "\<exists>c. docs_docs x0 = Some c \<and> c \<in> dom (cursors (native ?s'))"
    proof (cases "d0 = ?d")
      case True
      with a assms(7) show ?thesis by auto
    next
      case False
      with a have x0: "heap_docs s d0 = Some x0" by simp
      from inv_live_cursorD [OF inv(4) x0 o] obtain c0 where
        "docs_docs x0 = Some c0" "c0 \<in> dom (cursors (native s))" by blast
      with assms(7) show ?thesis by simp
    qed
  next
    fix d0 d1 x0 x1
    assume a: "heap_docs ?s' d0 = Some x0" "heap_docs ?s' d1 = Some x1" and o: "docs_opened x0"
      "docs_opened x1" and e: "docs_docs x0 = docs_docs x1"
    have new_old: False if "heap_docs s da = Some xa" "docs_opened xa" "docs_docs xa = Some c" for da xa
    proof -
      from inv_live_cursorD [OF inv(4) that(1,2)] that(3) have "c \<in> dom (cursors (native s))"
        by auto
      with oldc show False by blast
    qed
    show "d0 = d1"
    proof (cases "d0 = ?d")
      case d0: True
      show ?thesis
      proof (cases "d1 = ?d")
        case True
        with d0 show ?thesis by simp
      next
        case False
        with a d0 e o new_old [of d1 x1] show ?thesis by auto
      qed
    next
      case d0: False
      show ?thesis
      proof (cases "d1 = ?d")
        case True
        with a d0 e o new_old [of d0 x0] show ?thesis by auto
      next
        case False
        with d0 a have *: "heap_docs s d0 = Some x0" "heap_docs s d1 = Some x1" by simp_all
        from inv_live_cursor_inj [OF inv(4) * o e] show ?thesis .
      qed
    qed
  qed
  ultimately show ?thesis by (simp add: wf_def)
qed

lemma All_closed:
  "heap_db s r = Some db \<Longrightarrow> \<not> db_opened db \<Longrightarrow>
   Db_All L r s = Inr ((new_docs s, Some errclosed), added_docs zero_Docs (native s) s)"
  by (simp add: Db_All_def added_docs_def Let_def)

lemma All_opened:
  "heap_db s r = Some db \<Longrightarrow> db_opened db \<Longrightarrow>
   Db_All L r s =
     (case c_dbxml_get_all L (db_db db) (native s) of
        Inl f \<Rightarrow> Inl f
      | Inr (c, n') \<Rightarrow> Inr ((new_docs s, None), registered r db c n' s))"
  by (simp add: Db_All_def registered_def Let_def zero_Docs_def split: sum.split)

lemma Query_closed:
  "heap_db s r = Some db \<Longrightarrow> \<not> db_opened db \<Longrightarrow>
   Db_Query L r q s = Inr ((new_docs s, Some errclosed), added_docs zero_Docs (native s) s)"
  by (simp add: Db_Query_def added_docs_def Let_def)

lemma Query_opened:
  "heap_db s r = Some db \<Longrightarrow> db_opened db \<Longrightarrow>
   Db_Query L r q s =
     (case c_dbxml_get_query L (db_db db) q (native s) of
        Inl f \<Rightarrow> Inl f
      | Inr (c, n1) \<Rightarrow>
         (case c_dbxml_error (db_db db) n1 of
            Inl f \<Rightarrow> Inl f
          | Inr (e, n2) \<Rightarrow>
             if e \<noteq> 0
             then (case c_dbxml_errstring (db_db db) n2 of
                     Inl f \<Rightarrow> Inl f
                   | Inr (msg, n3) \<Rightarrow>
                      Inr ((new_docs s, Some (errors_New msg)),
                           added_docs (zero_Docs\<lparr>docs_docs := Some c\<rparr>) n3 s))
             else Inr ((new_docs s, None), registered r db c n2 s)))"
  by (simp add: Db_Query_def registered_def added_docs_def Let_def zero_Docs_def split: sum.split)

lemma Next_closed:
  "heap_docs s d = Some x \<Longrightarrow> \<not> docs_opened x \<Longrightarrow> Docs_Next L d s = Inr (False, s)"
  by (simp add: Docs_Next_def)

lemma Next_opened:
  "heap_docs s d = Some x \<Longrightarrow> docs_opened x \<Longrightarrow> docs_docs x = Some c \<Longrightarrow>
   Docs_Next L d s =
     (case c_dbxml_docs_next L c (native s) of
        Inl f \<Rightarrow> Inl f
      | Inr (ret, n1) \<Rightarrow>
         if ret = 0
         then (case Docs_close L d (started d x n1 s) of
                 Inl f \<Rightarrow> Inl f
               | Inr s2 \<Rightarrow> Inr (False, s2))
         else Inr (True, started d x n1 s))"
  by (simp add: Docs_Next_def started_def Let_def split: sum.split)

lemma All_wf:
  assumes "wf s" "Db_All L r s = Inr (y, s')" "\<forall>r db. heap_db s r = Some db \<longrightarrow> db_next db + 1 \<noteq> 0"
  shows "wf s'"
proof -
  from assms(2) obtain db where db: "heap_db s r = Some db"
    by (auto simp: Db_All_def Let_def split: option.splits)
  show ?thesis
  proof (cases "db_opened db")
    case False
    from All_closed [OF db False, of L] assms(2) have "s' = added_docs zero_Docs (native s) s" by simp
    moreover have "wf (added_docs zero_Docs (native s) s)"
      by (rule added_docs_wf [OF assms(1)])
         (use inv_alloc_cursor [OF wfD(1) [OF assms(1)]] in \<open>simp_all add: zero_Docs_def\<close>)
    ultimately show ?thesis by simp
  next
    case True
    from All_opened [OF db True, of L] assms(2) obtain c n' where
      g: "c_dbxml_get_all L (db_db db) (native s) = Inr (c, n')" and s': "s' = registered r db c n' s"
      by (auto split: sum.splits)
    note sh = get_all_shape [OF g]
    have "wf (registered r db c n' s)"
      by (rule registered_wf [OF assms(1) db True]) (use assms(3) db sh in simp_all)
    with s' show ?thesis by simp
  qed
qed

lemma Query_wf:
  assumes "wf s" "Db_Query L r q s = Inr (y, s')"
    "\<forall>r db. heap_db s r = Some db \<longrightarrow> db_next db + 1 \<noteq> 0"
  shows "wf s'"
proof -
  from assms(2) obtain db where db: "heap_db s r = Some db"
    by (auto simp: Db_Query_def Let_def split: option.splits)
  note inv = wfD [OF assms(1)]
  show ?thesis
  proof (cases "db_opened db")
    case False
    from Query_closed [OF db False, of L] assms(2) have "s' = added_docs zero_Docs (native s) s" by simp
    moreover have "wf (added_docs zero_Docs (native s) s)"
      by (rule added_docs_wf [OF assms(1)])
         (use inv_alloc_cursor [OF inv(1)] in \<open>simp_all add: zero_Docs_def\<close>)
    ultimately show ?thesis by simp
  next
    case True
    note eq = Query_opened [OF db True, of L q]
    from inv_live_handleD [OF inv(4) db True] obtain t where t: "handles (native s) (db_db db) = Some t"
      by blast
    obtain c n1 where g: "c_dbxml_get_query L (db_db db) q (native s) = Inr (c, n1)"
      using get_query_error [OF t, of L q] by (auto split: sum.splits)
    note sh1 = get_query_shape [OF g]
    from sh1 t have "db_db db \<in> dom (handles n1)" by auto
    then obtain t1 where t1: "handles n1 (db_db db) = Some t1" by blast
    let ?n2 = "enter F_error (db_db db) n1"
    note e = error_total [OF t1]
    show ?thesis
    proof (cases "error t1")
      case False
      with eq assms(2) g e have s': "s' = registered r db c ?n2 s" by simp
      have "wf (registered r db c ?n2 s)"
        by (rule registered_wf [OF assms(1) db True]) (use assms(3) db sh1 in simp_all)
      with s' show ?thesis by simp
    next
      case err: True
      have t2: "handles ?n2 (db_db db) = Some t1" using t1 by simp
      let ?n3 = "enter F_errstring (db_db db) ?n2"
      from eq assms(2) g e err errstring_total [OF t2]
      have s': "s' = added_docs (zero_Docs\<lparr>docs_docs := Some c\<rparr>) ?n3 s" by simp
      have "wf (added_docs (zero_Docs\<lparr>docs_docs := Some c\<rparr>) ?n3 s)"
      proof (rule added_docs_wf [OF assms(1)])
        show "\<forall>c. c \<in> dom (cursors ?n3) \<longrightarrow> c < fresh ?n3"
        proof (intro allI impI)
          fix c' assume "c' \<in> dom (cursors ?n3)"
          with sh1 have "c' = fresh (native s) \<or> c' \<in> dom (cursors (native s))" by simp
          then have "c' \<le> fresh (native s)"
          proof
            assume "c' \<in> dom (cursors (native s))"
            from inv_alloc_cursor [OF inv(1) this] show ?thesis by simp
          qed simp
          with sh1 show "c' < fresh ?n3" by simp
        qed
        show "\<not> docs_opened (zero_Docs\<lparr>docs_docs := Some c\<rparr>)" by (simp add: zero_Docs_def)
        show "dom (handles ?n3) = dom (handles (native s))" using sh1 by simp
        show "dom (cursors (native s)) \<subseteq> dom (cursors ?n3)" using sh1 by auto
        show "fresh (native s) \<le> fresh ?n3" using sh1 by simp
      qed
      with s' show ?thesis by simp
    qed
  qed
qed

lemma Next_wf:
  assumes "wf s" "Docs_Next L d s = Inr (b, s')"
  shows "wf s'"
proof -
  from assms(2) obtain x where x: "heap_docs s d = Some x"
    by (auto simp: Docs_Next_def split: option.splits)
  show ?thesis
  proof (cases "docs_opened x")
    case False
    from Next_closed [OF x False, of L] assms show ?thesis by simp
  next
    case True
    from inv_live_cursorD [OF wfD(4) [OF assms(1)] x True] obtain c where
      c: "docs_docs x = Some c" by blast
    from Next_opened [OF x True c, of L] assms(2) obtain ret n1 where
      n: "c_dbxml_docs_next L c (native s) = Inr (ret, n1)"
      by (auto split: sum.splits)
    have w1: "wf (started d x n1 s)"
      by (rule started_wf [OF assms(1) x docs_next_shape [OF n]])
    show ?thesis
    proof (cases "ret = 0")
      case False
      with Next_opened [OF x True c, of L] assms(2) n w1 show ?thesis by simp
    next
      case ret: True
      with Next_opened [OF x True c, of L] assms(2) n have
        "Docs_close L d (started d x n1 s) = Inr s'" by (auto split: sum.splits)
      from Docs_close_wf [OF w1 this] show ?thesis .
    qed
  qed
qed

lemma Db_Close_closed:
  "heap_db s r = Some db \<Longrightarrow> \<not> db_opened db \<Longrightarrow> Db_Close L r s = Inr s"
  by (simp add: Db_Close_def)

lemma Db_Close_preserves_wf:
  assumes "wf s" "Db_Close L r s = Inr s'"
  shows "wf s'"
proof -
  from assms(2) obtain db where db: "heap_db s r = Some db"
    by (auto simp: Db_Close_def split: option.splits)
  show ?thesis
  proof (cases "db_opened db")
    case False
    from Db_Close_closed [OF db False, of L] assms show ?thesis by simp
  next
    case True
    from Db_Close_wf [OF assms(1) db True, of L] assms(2) show ?thesis by auto
  qed
qed

lemma unat_inc_le:
  fixes x :: "64 word"
  shows "unat (x + 1) \<le> Suc (unat x)"
proof -
  have "unat (x + 1) = (unat x + unat (1 :: 64 word)) mod 2 ^ LENGTH(64)"
    by (rule unat_word_ariths(1))
  also have "\<dots> \<le> unat x + unat (1 :: 64 word)" by (rule mod_less_eq_dividend)
  finally show ?thesis by simp
qed

lemma grows_bounded:
  assumes "bounded k s" "grows s s'"
  shows "bounded (Suc k) s'"
  unfolding bounded_def
proof (intro allI impI)
  fix r db' assume "heap_db s' r = Some db'"
  with assms(2) consider "db_next db' = 0"
    | db where "heap_db s r = Some db" "db_next db' = db_next db"
    | db where "heap_db s r = Some db" "db_next db' = db_next db + 1"
    unfolding grows_def by blast
  then show "unat (db_next db') \<le> Suc k"
  proof cases
    case 1
    then show ?thesis by simp
  next
    case (2 db)
    with assms(1) show ?thesis unfolding bounded_def by fastforce
  next
    case (3 db)
    with assms(1) have "unat (db_next db) \<le> k" unfolding bounded_def by blast
    with unat_inc_le [of "db_next db"] 3 show ?thesis by simp
  qed
qed

lemma bounded_nowrap:
  assumes "bounded k s" "k < 2 ^ 64 - 1" "heap_db s r = Some db"
  shows "db_next db + 1 \<noteq> 0"
proof
  assume z: "db_next db + 1 = 0"
  from assms have "unat (db_next db) \<le> k" unfolding bounded_def by blast
  with assms(2) have "unat (db_next db) + unat (1 :: 64 word) < 2 ^ LENGTH(64)" by simp
  then have "unat (db_next db + 1) = unat (db_next db) + unat (1 :: 64 word)"
    by (simp only: unat_add_lem)
  with z show False by simp
qed

lemma grows_same: "heap_db s' = heap_db s \<Longrightarrow> grows s s'"
  unfolding grows_def by auto

lemma quiet_grows: "quiet s s' \<Longrightarrow> grows s s'"
  by (simp add: quiet_def grows_same)

lemma grows_refl [simp]: "grows s s"
  by (simp add: grows_same)

lemma grows_trans_same: "heap_db s1 = heap_db s \<Longrightarrow> grows s1 s' \<Longrightarrow> grows s s'"
  unfolding grows_def by simp

lemma grows_added_db: "db_next db = 0 \<Longrightarrow> grows s (added_db db n' F s)"
  unfolding grows_def by (auto split: if_splits)

lemma grows_added_docs: "grows s (added_docs y n' s)"
  by (rule grows_same) simp

lemma grows_started: "grows s (started d x n' s)"
  by (rule grows_same) simp

lemma grows_registered: "heap_db s r = Some db \<Longrightarrow> grows s (registered r db c n' s)"
  unfolding grows_def by (auto split: if_splits)

lemma grows_closed_docs: "heap_db s r = Some db \<Longrightarrow> grows s (closed_docs d x r db n' s)"
  unfolding grows_def by (auto split: if_splits)

lemma grows_close_post: "close_post r s s' \<Longrightarrow> grows s s'"
  unfolding grows_def close_post_def
  by (auto split: if_splits)

lemma Open_grows: "Open L f s = Inr (x, s') \<Longrightarrow> grows s s'"
  by (cases rule: Open_result [of L f s]) (auto intro: grows_added_db)

lemma Docs_close_grows: "Docs_close L d s = Inr s' \<Longrightarrow> grows s s'"
  unfolding grows_def
  by (auto simp: Docs_close_def split: option.splits if_splits sum.splits)

lemma Next_grows: "Docs_Next L d s = Inr (b, s') \<Longrightarrow> grows s s'"
  unfolding grows_def
  by (auto simp: Docs_Next_def Docs_close_def Let_def split: option.splits if_splits sum.splits)

lemma All_grows: "Db_All L r s = Inr (y, s') \<Longrightarrow> grows s s'"
  unfolding grows_def
  by (auto simp: Db_All_def Let_def split: option.splits if_splits sum.splits)

lemma Query_grows: "Db_Query L r q s = Inr (y, s') \<Longrightarrow> grows s s'"
  unfolding grows_def
  by (auto simp: Db_Query_def Let_def split: option.splits if_splits sum.splits)

lemma Db_Close_grows:
  assumes "wf s" "Db_Close L r s = Inr s'"
  shows "grows s s'"
proof -
  from assms(2) obtain db where db: "heap_db s r = Some db"
    by (auto simp: Db_Close_def split: option.splits)
  show ?thesis
  proof (cases "db_opened db")
    case False
    from Db_Close_closed [OF db False, of L] assms show ?thesis by simp
  next
    case True
    from Db_Close_wf [OF assms(1) db True, of L] assms(2) show ?thesis
      by (auto intro: grows_close_post)
  qed
qed

lemma exec_inv:
  assumes "wf s" "bounded k s" "k < 2 ^ 64 - 1" "exec L a s = Some s'"
  shows "wf s' \<and> bounded (Suc k) s'"
proof -
  note nw = bounded_nowrap [OF assms(2,3)]
  have "wf s' \<and> grows s s'"
  proof (cases a)
    case (AOpen f)
    with assms(4) obtain x where "Open L f s = Inr (x, s')"
      by (auto simp: returned_def split: sum.splits)
    with Open_wf [OF assms(1)] Open_grows show ?thesis by blast
  next
    case (AClose r)
    with assms(4) have "Db_Close L r s = Inr s'" by (auto split: sum.splits)
    with Db_Close_preserves_wf [OF assms(1)] Db_Close_grows [OF assms(1)] show ?thesis by blast
  next
    case (APutFile r f b)
    with assms(4) obtain x where "Db_PutFile L r f b s = Inr (x, s')"
      by (auto simp: returned_def split: sum.splits)
    from PutFile_quiet [OF this] quiet_wf assms(1) quiet_grows show ?thesis by blast
  next
    case (APutXml r f d b)
    with assms(4) obtain x where "Db_PutXml L r f d b s = Inr (x, s')"
      by (auto simp: returned_def split: sum.splits)
    from PutXml_quiet [OF this] quiet_wf assms(1) quiet_grows show ?thesis by blast
  next
    case (AMerge r f b)
    with assms(4) obtain x where "Db_Merge L r f b s = Some (Inr (x, s'))"
      by (auto simp: returned_def split: sum.splits option.splits)
    from Merge_quiet [OF this] quiet_wf assms(1) quiet_grows show ?thesis by blast
  next
    case (ARemove r f)
    with assms(4) obtain x where "Db_Remove L r f s = Inr (x, s')"
      by (auto simp: returned_def split: sum.splits)
    from Remove_quiet [OF this] quiet_wf assms(1) quiet_grows show ?thesis by blast
  next
    case (AGet r f)
    with assms(4) obtain x where "Db_Get L r f s = Inr (x, s')"
      by (auto simp: returned_def split: sum.splits)
    from Get_quiet [OF this] quiet_wf assms(1) quiet_grows show ?thesis by blast
  next
    case (ASize r)
    with assms(4) obtain x where "Db_Size L r s = Inr (x, s')"
      by (auto simp: returned_def split: sum.splits)
    from Size_quiet [OF this] quiet_wf assms(1) quiet_grows show ?thesis by blast
  next
    case (AAll r)
    with assms(4) obtain x where x: "Db_All L r s = Inr (x, s')"
      by (auto simp: returned_def split: sum.splits)
    from All_wf [OF assms(1) x] nw All_grows [OF x] show ?thesis by blast
  next
    case (AQuery r q)
    with assms(4) obtain x where x: "Db_Query L r q s = Inr (x, s')"
      by (auto simp: returned_def split: sum.splits)
    from Query_wf [OF assms(1) x] nw Query_grows [OF x] show ?thesis by blast
  next
    case (ANext d)
    with assms(4) obtain x where x: "Docs_Next L d s = Inr (x, s')"
      by (auto simp: returned_def split: sum.splits)
    from Next_wf [OF assms(1) x] Next_grows [OF x] show ?thesis by blast
  next
    case (AName d)
    with assms(4) obtain x where "Docs_Name L d s = Inr (x, s')"
      by (auto simp: returned_def split: sum.splits)
    from Name_quiet [OF this] quiet_wf assms(1) quiet_grows show ?thesis by blast
  next
    case (AContent d)
    with assms(4) obtain x where "Docs_Content L d s = Inr (x, s')"
      by (auto simp: returned_def split: sum.splits)
    from Content_quiet [OF this] quiet_wf assms(1) quiet_grows show ?thesis by blast
  next
    case (ADocsClose d)
    with assms(4) have x: "Docs_close L d s = Inr s'"
      by (auto simp: Docs_Close_def split: sum.splits)
    from Docs_close_wf [OF assms(1) x] Docs_close_grows [OF x] show ?thesis by blast
  qed
  with grows_bounded [OF assms(2)] show ?thesis by blast
qed

lemma boot_wf: "wf (boot w)"
  by (simp add: wf_def inv_alloc_def inv_children_def inv_owner_def inv_live_def boot_def)

lemma boot_bounded: "bounded 0 (boot w)"
  by (simp add: bounded_def boot_def)

lemma run_append:
  "run L (as @ bs) s = (case run L as s of None \<Rightarrow> None | Some s' \<Rightarrow> run L bs s')"
  by (induction as arbitrary: s) (auto split: option.splits)

lemma run_inv:
  assumes "wf s" "bounded k s" "run L as s = Some s'" "k + length as < 2 ^ 64"
  shows "wf s' \<and> bounded (k + length as) s'"
  using assms
proof (induction as arbitrary: s k)
  case Nil
  then show ?case by simp
next
  case (Cons a as)
  from Cons.prems(3) obtain s1 where s1: "exec L a s = Some s1" "run L as s1 = Some s'"
    by (auto split: option.splits)
  from Cons.prems(4) have k: "k < 2 ^ 64 - 1" by simp
  from exec_inv [OF Cons.prems(1,2) k s1(1)] have "wf s1" "bounded (Suc k) s1" by simp_all
  from Cons.IH [OF this s1(2)] Cons.prems(4) show ?case by simp
qed

lemma run_wf:
  assumes "run L as (boot w) = Some s" "length as < 2 ^ 64"
  shows "wf s"
  using run_inv [OF boot_wf boot_bounded assms(1)] assms(2) by simp

lemma keeps_refl [simp]: "keeps s s"
  by (simp add: keeps_def)

lemma keeps_trans:
  assumes "keeps s s1" "keeps s1 s2"
  shows "keeps s s2"
  unfolding keeps_def
proof (intro conjI allI impI)
  show "new_db s \<le> new_db s2" "new_docs s \<le> new_docs s2"
    using assms by (auto simp: keeps_def)
next
  fix r assume "r \<in> dom (heap_db s2)"
  with assms(2) have "r \<in> dom (heap_db s1) \<or> r < new_db s2" unfolding keeps_def by blast
  moreover have "r \<in> dom (heap_db s) \<or> r < new_db s2" if "r \<in> dom (heap_db s1)"
  proof -
    from that assms(1) have "r \<in> dom (heap_db s) \<or> r < new_db s1" unfolding keeps_def by blast
    moreover from assms(2) have "new_db s1 \<le> new_db s2" unfolding keeps_def by blast
    ultimately show ?thesis by auto
  qed
  ultimately show "r \<in> dom (heap_db s) \<or> r < new_db s2" by blast
next
  fix d assume "d \<in> dom (heap_docs s2)"
  with assms(2) have "d \<in> dom (heap_docs s1) \<or> d < new_docs s2" unfolding keeps_def by blast
  moreover have "d \<in> dom (heap_docs s) \<or> d < new_docs s2" if "d \<in> dom (heap_docs s1)"
  proof -
    from that assms(1) have "d \<in> dom (heap_docs s) \<or> d < new_docs s1" unfolding keeps_def by blast
    moreover from assms(2) have "new_docs s1 \<le> new_docs s2" unfolding keeps_def by blast
    ultimately show ?thesis by auto
  qed
  ultimately show "d \<in> dom (heap_docs s) \<or> d < new_docs s2" by blast
next
  fix d assume "d \<in> fin_docs s2"
  with assms(2) have "d \<in> fin_docs s1 \<or> d < new_docs s2" unfolding keeps_def by blast
  moreover have "d \<in> fin_docs s \<or> d < new_docs s2" if "d \<in> fin_docs s1"
  proof -
    from that assms(1) have "d \<in> fin_docs s \<or> d < new_docs s1" unfolding keeps_def by blast
    moreover from assms(2) have "new_docs s1 \<le> new_docs s2" unfolding keeps_def by blast
    ultimately show ?thesis by auto
  qed
  ultimately show "d \<in> fin_docs s \<or> d < new_docs s2" by blast
next
  fix r db assume a: "r < new_db s" "heap_db s r = Some db" "\<not> db_opened db"
  with assms(1) obtain db1 where db1: "heap_db s1 r = Some db1" "\<not> db_opened db1"
    unfolding keeps_def by blast
  from a(1) assms(1) have "r < new_db s1" unfolding keeps_def by auto
  with db1 assms(2) show "\<exists>db'. heap_db s2 r = Some db' \<and> \<not> db_opened db'"
    unfolding keeps_def by blast
next
  fix d x assume a: "d < new_docs s" "heap_docs s d = Some x" "\<not> docs_opened x"
  with assms(1) have x1: "heap_docs s1 d = Some x" unfolding keeps_def by blast
  from a(1) assms(1) have "d < new_docs s1" unfolding keeps_def by auto
  with x1 a(3) assms(2) show "heap_docs s2 d = Some x" unfolding keeps_def by blast
qed

lemma keeps_alloc:
  assumes "alloc_ok s" "keeps s s'"
  shows "alloc_ok s'"
  unfolding alloc_ok_def
proof (intro conjI allI impI)
  fix r assume "r \<in> dom (heap_db s')"
  with assms(2) have "r \<in> dom (heap_db s) \<or> r < new_db s'" unfolding keeps_def by blast
  moreover from assms(2) have "new_db s \<le> new_db s'" unfolding keeps_def by blast
  ultimately show "r < new_db s'" using assms(1) unfolding alloc_ok_def by fastforce
next
  fix d assume "d \<in> dom (heap_docs s')"
  with assms(2) have "d \<in> dom (heap_docs s) \<or> d < new_docs s'" unfolding keeps_def by blast
  moreover from assms(2) have "new_docs s \<le> new_docs s'" unfolding keeps_def by blast
  ultimately show "d < new_docs s'" using assms(1) unfolding alloc_ok_def by fastforce
next
  fix d assume "d \<in> fin_docs s'"
  with assms(2) have "d \<in> fin_docs s \<or> d < new_docs s'" unfolding keeps_def by blast
  moreover from assms(2) have "new_docs s \<le> new_docs s'" unfolding keeps_def by blast
  ultimately show "d < new_docs s'" using assms(1) unfolding alloc_ok_def by fastforce
qed

lemma quiet_keeps: "quiet s s' \<Longrightarrow> keeps s s'"
  by (simp add: quiet_def keeps_def)

lemma keeps_added_db: "keeps s (added_db db n' F s)"
  unfolding keeps_def by (auto split: if_splits)

lemma keeps_added_docs: "keeps s (added_docs y n' s)"
  unfolding keeps_def by (auto split: if_splits)

lemma keeps_registered: "heap_db s r = Some db \<Longrightarrow> db_opened db \<Longrightarrow> keeps s (registered r db c n' s)"
  unfolding keeps_def by (auto split: if_splits)

lemma keeps_started: "heap_docs s d = Some x \<Longrightarrow> docs_opened x \<Longrightarrow> keeps s (started d x n' s)"
  unfolding keeps_def by (auto split: if_splits)

lemma keeps_closed_docs:
  "heap_docs s d = Some x \<Longrightarrow> docs_opened x \<Longrightarrow> heap_db s r = Some db \<Longrightarrow>
   keeps s (closed_docs d x r db n' s)"
  unfolding keeps_def by (auto split: if_splits)

lemma keeps_closed_db: "heap_db s r = Some db \<Longrightarrow> keeps s (closed_db r db' n' s)"
  unfolding keeps_def by (auto split: if_splits)

lemma Docs_close_result:
  assumes "Docs_close L d s = Inr s'" "heap_docs s d = Some x" "docs_opened x"
  shows "\<exists>r db n'. docs_db x = Some r \<and> heap_db s r = Some db \<and> s' = closed_docs d x r db n' s"
proof -
  from assms obtain r where r: "docs_db x = Some r"
    by (cases "docs_db x") (auto simp: Docs_close_def split: option.splits sum.splits)
  from assms r obtain db where db: "heap_db s r = Some db"
    by (cases "heap_db s r") (auto simp: Docs_close_def split: option.splits sum.splits)
  have "\<exists>n'. s' = closed_docs d x r db n' s"
  proof (cases "docs_docs x")
    case None
    with assms r db have "s' = closed_docs d x r db (native s) s"
      by (simp add: Docs_close_def closed_docs_def)
    then show ?thesis ..
  next
    case (Some c)
    with assms r db obtain n' where "c_dbxml_docs_free L c (native s) = Inr n'"
      by (cases "c_dbxml_docs_free L c (native s)") (simp_all add: Docs_close_def)
    with Docs_close_opened [OF assms(2,3) Some r db, of L] assms(1)
    have "s' = closed_docs d x r db n' s" by simp
    then show ?thesis ..
  qed
  with r db show ?thesis by blast
qed

lemma Docs_close_keeps:
  assumes "Docs_close L d s = Inr s'"
  shows "keeps s s'"
proof -
  from assms obtain x where x: "heap_docs s d = Some x"
    by (auto simp: Docs_close_def split: option.splits)
  show ?thesis
  proof (cases "docs_opened x")
    case False
    from Docs_close_closed [OF x False, of L] assms show ?thesis by simp
  next
    case True
    from Docs_close_result [OF assms x True] keeps_closed_docs [OF x True] show ?thesis by blast
  qed
qed

lemma Close_loop_keeps:
  "Close_loop L r i s = Inr s' \<Longrightarrow> keeps s s'"
proof (induction L r i s rule: Close_loop.induct)
  case (1 L r i s)
  from 1(3) obtain db where db: "heap_db s r = Some db"
    by (cases "heap_db s r") (simp_all add: Close_loop.simps [of L r i s])
  show ?case
  proof (cases "i < db_next db")
    case False
    with 1(3) db show ?thesis by (simp add: Close_loop.simps [of L r i s])
  next
    case True
    show ?thesis
    proof (cases "db_docss db i")
      case None
      with 1(3) db True have "Close_loop L r (i + 1) s = Inr s'"
        by (simp add: Close_loop.simps [of L r i s])
      from 1(1) [OF db True None this] show ?thesis .
    next
      case (Some d)
      with 1(3) db True obtain s1 where s1: "Docs_Close L d s = Inr s1"
        "Close_loop L r (i + 1) s1 = Inr s'"
        by (cases "Docs_Close L d s") (simp_all add: Close_loop.simps [of L r i s])
      from s1(1) have "keeps s s1" by (simp add: Docs_Close_def Docs_close_keeps)
      with 1(2) [OF db True Some s1] show ?thesis by (rule keeps_trans [rotated])
    qed
  qed
qed

lemma Db_Close_keeps:
  assumes "Db_Close L r s = Inr s'"
  shows "keeps s s'"
proof -
  from assms obtain db where db: "heap_db s r = Some db"
    by (auto simp: Db_Close_def split: option.splits)
  show ?thesis
  proof (cases "db_opened db")
    case False
    from Db_Close_closed [OF db False, of L] assms show ?thesis by simp
  next
    case True
    with assms db obtain s1 n2 db1 where s1: "Close_loop L r 0 s = Inr s1"
      "heap_db s1 r = Some db1" "s' = closed_db r db1 n2 s1"
      by (auto simp: Db_Close_def closed_db_def split: option.splits sum.splits)
    from Close_loop_keeps [OF s1(1)] keeps_closed_db [OF s1(2)] s1(3) show ?thesis
      by (auto intro: keeps_trans)
  qed
qed

lemma Open_keeps: "Open L f s = Inr (x, s') \<Longrightarrow> keeps s s'"
  by (cases rule: Open_result [of L f s]) (auto intro: keeps_added_db)

lemma All_keeps:
  assumes "Db_All L r s = Inr (y, s')"
  shows "keeps s s'"
proof -
  from assms obtain db where db: "heap_db s r = Some db"
    by (auto simp: Db_All_def Let_def split: option.splits)
  show ?thesis
  proof (cases "db_opened db")
    case False
    from All_closed [OF db False, of L] assms show ?thesis by (auto intro: keeps_added_docs)
  next
    case True
    from All_opened [OF db True, of L] assms keeps_registered [OF db True] show ?thesis
      by (auto split: sum.splits)
  qed
qed

lemma Query_keeps:
  assumes "Db_Query L r q s = Inr (y, s')"
  shows "keeps s s'"
proof -
  from assms obtain db where db: "heap_db s r = Some db"
    by (auto simp: Db_Query_def Let_def split: option.splits)
  show ?thesis
  proof (cases "db_opened db")
    case False
    from Query_closed [OF db False, of L] assms show ?thesis by (auto intro: keeps_added_docs)
  next
    case True
    from Query_opened [OF db True, of L q] assms keeps_registered [OF db True] show ?thesis
      by (auto simp: keeps_added_docs split: sum.splits if_splits)
  qed
qed

lemma Next_keeps:
  assumes "Docs_Next L d s = Inr (b, s')"
  shows "keeps s s'"
proof -
  from assms obtain x where x: "heap_docs s d = Some x"
    by (auto simp: Docs_Next_def split: option.splits)
  show ?thesis
  proof (cases "docs_opened x")
    case False
    from Next_closed [OF x False, of L] assms show ?thesis by simp
  next
    case True
    from assms x True obtain c where c: "docs_docs x = Some c"
      by (cases "docs_docs x") (auto simp: Docs_Next_def)
    from Next_opened [OF x True c, of L] assms obtain ret n1 where
      n: "c_dbxml_docs_next L c (native s) = Inr (ret, n1)"
      by (auto split: sum.splits)
    note k1 = keeps_started [OF x True, of n1]
    show ?thesis
    proof (cases "ret = 0")
      case False
      with Next_opened [OF x True c, of L] assms n k1 show ?thesis by simp
    next
      case ret: True
      with Next_opened [OF x True c, of L] assms n have
        "Docs_close L d (started d x n1 s) = Inr s'" by (auto split: sum.splits)
      from keeps_trans [OF k1 Docs_close_keeps [OF this]] show ?thesis .
    qed
  qed
qed

lemma exec_keeps:
  assumes "exec L a s = Some s'"
  shows "keeps s s'"
proof (cases a)
  case (AOpen f)
  with assms obtain x where "Open L f s = Inr (x, s')"
    by (auto simp: returned_def split: sum.splits)
  then show ?thesis by (rule Open_keeps)
next
  case (AClose r)
  with assms have "Db_Close L r s = Inr s'" by (auto split: sum.splits)
  then show ?thesis by (rule Db_Close_keeps)
next
  case (APutFile r f b)
  with assms obtain x where "Db_PutFile L r f b s = Inr (x, s')"
    by (auto simp: returned_def split: sum.splits)
  from PutFile_quiet [OF this] show ?thesis by (rule quiet_keeps)
next
  case (APutXml r f d b)
  with assms obtain x where "Db_PutXml L r f d b s = Inr (x, s')"
    by (auto simp: returned_def split: sum.splits)
  from PutXml_quiet [OF this] show ?thesis by (rule quiet_keeps)
next
  case (AMerge r f b)
  with assms obtain x where "Db_Merge L r f b s = Some (Inr (x, s'))"
    by (auto simp: returned_def split: sum.splits option.splits)
  from Merge_quiet [OF this] show ?thesis by (rule quiet_keeps)
next
  case (ARemove r f)
  with assms obtain x where "Db_Remove L r f s = Inr (x, s')"
    by (auto simp: returned_def split: sum.splits)
  from Remove_quiet [OF this] show ?thesis by (rule quiet_keeps)
next
  case (AGet r f)
  with assms obtain x where "Db_Get L r f s = Inr (x, s')"
    by (auto simp: returned_def split: sum.splits)
  from Get_quiet [OF this] show ?thesis by (rule quiet_keeps)
next
  case (ASize r)
  with assms obtain x where "Db_Size L r s = Inr (x, s')"
    by (auto simp: returned_def split: sum.splits)
  from Size_quiet [OF this] show ?thesis by (rule quiet_keeps)
next
  case (AAll r)
  with assms obtain x where "Db_All L r s = Inr (x, s')"
    by (auto simp: returned_def split: sum.splits)
  then show ?thesis by (rule All_keeps)
next
  case (AQuery r q)
  with assms obtain x where "Db_Query L r q s = Inr (x, s')"
    by (auto simp: returned_def split: sum.splits)
  then show ?thesis by (rule Query_keeps)
next
  case (ANext d)
  with assms obtain x where "Docs_Next L d s = Inr (x, s')"
    by (auto simp: returned_def split: sum.splits)
  then show ?thesis by (rule Next_keeps)
next
  case (AName d)
  with assms obtain x where "Docs_Name L d s = Inr (x, s')"
    by (auto simp: returned_def split: sum.splits)
  from Name_quiet [OF this] show ?thesis by (rule quiet_keeps)
next
  case (AContent d)
  with assms obtain x where "Docs_Content L d s = Inr (x, s')"
    by (auto simp: returned_def split: sum.splits)
  from Content_quiet [OF this] show ?thesis by (rule quiet_keeps)
next
  case (ADocsClose d)
  with assms have "Docs_close L d s = Inr s'"
    by (auto simp: Docs_Close_def split: sum.splits)
  then show ?thesis by (rule Docs_close_keeps)
qed

lemma run_keeps: "run L as s = Some s' \<Longrightarrow> keeps s s'"
proof (induction as arbitrary: s)
  case Nil
  then show ?case by simp
next
  case (Cons a as)
  from Cons.prems obtain s1 where s1: "exec L a s = Some s1" "run L as s1 = Some s'"
    by (auto split: option.splits)
  from keeps_trans [OF exec_keeps [OF s1(1)] Cons.IH [OF s1(2)]] show ?case .
qed

lemma boot_alloc: "alloc_ok (boot w)"
  by (simp add: alloc_ok_def boot_def)

lemma run_alloc: "run L as (boot w) = Some s \<Longrightarrow> alloc_ok s"
  using keeps_alloc [OF boot_alloc run_keeps] .

lemma rounds_loop:
  "merge_rounds k L db replace t n = Some y \<Longrightarrow> merge_loop L db replace t n = Some y"
proof (induction k arbitrary: n)
  case 0
  then show ?case by simp
next
  case (Suc k)
  let ?n1 = "snd (lib L (MergeNext db) n)"
  let ?put = "lib L (PutDocumentDoc db) (merge_delete L db replace ?n1)"
  note body = Suc.prems [unfolded merge_rounds.simps case_prod_beta]
  show ?case
  proof (cases "fst (lib L (MergeNext db) n)")
    case (Inl what)
    with body show ?thesis by (subst merge_loop.simps) (simp add: case_prod_beta)
  next
    case (Inr b)
    show ?thesis
    proof (cases "the_bool b")
      case False
      with Inr body show ?thesis by (subst merge_loop.simps) (simp add: case_prod_beta)
    next
      case True
      show ?thesis
      proof (cases "fst ?put")
        case (Inl what)
        with True Inr body show ?thesis by (subst merge_loop.simps) (simp add: case_prod_beta)
      next
        case put: (Inr v)
        with True Inr body have "merge_rounds k L db replace t (snd ?put) = Some y" by simp
        from Suc.IH [OF this] True Inr put show ?thesis
          by (subst merge_loop.simps) (simp add: case_prod_beta)
      qed
    qed
  qed
qed

lemma loop_rounds:
  assumes "merge_loop L db replace t n = Some y"
  shows "\<exists>k. merge_rounds k L db replace t n = Some y"
proof (rule merge_loop.raw_induct
    [where P = "\<lambda>L db replace t n y. \<exists>k. merge_rounds k L db replace t n = Some y", OF _ assms],
       goal_cases)
  case (1 merge_loop L db replace t n y)
  let ?n1 = "snd (lib L (MergeNext db) n)"
  let ?put = "lib L (PutDocumentDoc db) (merge_delete L db replace ?n1)"
  note body = 1(2) [unfolded case_prod_beta]
  show ?case
  proof (cases "fst (lib L (MergeNext db) n)")
    case (Inl what)
    with body have "merge_rounds (Suc 0) L db replace t n = Some y"
      by (simp add: case_prod_beta)
    then show ?thesis ..
  next
    case (Inr b)
    show ?thesis
    proof (cases "the_bool b")
      case False
      with Inr body have "merge_rounds (Suc 0) L db replace t n = Some y"
        by (simp add: case_prod_beta)
      then show ?thesis ..
    next
      case True
      show ?thesis
      proof (cases "fst ?put")
        case (Inl what)
        with True Inr body have "merge_rounds (Suc 0) L db replace t n = Some y"
          by (simp add: case_prod_beta)
        then show ?thesis ..
      next
        case put: (Inr v)
        with True Inr body have "merge_loop L db replace t (snd ?put) = Some y" by simp
        from 1(1) [OF this] obtain k where "merge_rounds k L db replace t (snd ?put) = Some y" ..
        with True Inr put have "merge_rounds (Suc k) L db replace t n = Some y"
          by (simp add: case_prod_beta)
        then show ?thesis ..
      qed
    qed
  qed
qed

lemma loop_rounds_iff:
  "merge_loop L db replace t n = Some y \<longleftrightarrow> (\<exists>k. merge_rounds k L db replace t n = Some y)"
  using rounds_loop loop_rounds by blast

lemma merge_loop_fault:
  assumes "merge_loop L db replace t n = Some (Inl f)"
  shows "\<exists>what. f = Uncaught what"
proof -
  from loop_rounds [OF assms] obtain k where "merge_rounds k L db replace t n = Some (Inl f)" ..
  then show ?thesis
  proof (induction k arbitrary: n)
    case 0
    then show ?case by simp
  next
    case (Suc k)
    let ?n1 = "snd (lib L (MergeNext db) n)"
    let ?put = "lib L (PutDocumentDoc db) (merge_delete L db replace ?n1)"
    note body = Suc.prems [unfolded merge_rounds.simps case_prod_beta]
    show ?case
    proof (cases "fst (lib L (MergeNext db) n)")
      case (Inl what)
      with body show ?thesis by auto
    next
      case (Inr b)
      show ?thesis
      proof (cases "the_bool b")
        case False
        with Inr body show ?thesis by simp
      next
        case True
        show ?thesis
        proof (cases "fst ?put")
          case (Inl what)
          with True Inr body show ?thesis by simp
        next
          case put: (Inr v)
          with True Inr body have "merge_rounds k L db replace t (snd ?put) = Some (Inl f)" by simp
          from Suc.IH [OF this] show ?thesis .
        qed
      qed
    qed
  qed
qed

lemma merge_within_iff:
  "c_dbxml_merge L db f replace n = Some y \<longleftrightarrow> (\<exists>k. merge_within k L db f replace n = Some y)"
proof (cases "handles n db")
  case None
  then show ?thesis by (auto simp: c_dbxml_merge_def merge_within_def)
next
  case (Some t0)
  let ?t = "t0\<lparr>errstring := [], error := False\<rparr>"
  let ?o = "lib L (MergeOpenContainer db f) (enter F_merge db n)"
  let ?g = "lib L (MergeGetAllDocuments db) (snd ?o)"
  show ?thesis
  proof (cases "fst ?o")
    case (Inl what)
    with Some show ?thesis
      by (auto simp: c_dbxml_merge_def merge_within_def Let_def case_prod_beta)
  next
    case o: (Inr v)
    show ?thesis
    proof (cases "fst ?g")
      case (Inl what)
      with Some o show ?thesis
        by (auto simp: c_dbxml_merge_def merge_within_def Let_def case_prod_beta)
    next
      case g: (Inr v')
      let ?w = "\<lambda>x. case x of None \<Rightarrow> None | Some (Inl f) \<Rightarrow> Some (Inl f)
                  | Some (Inr (r, t', n3)) \<Rightarrow> Some (Inr (r, store db t' n3))"
      have 1: "c_dbxml_merge L db f replace n = ?w (merge_loop L db replace ?t (snd ?g))"
        using Some o g by (simp add: c_dbxml_merge_def Let_def case_prod_beta)
      have 2: "merge_within k L db f replace n = ?w (merge_rounds k L db replace ?t (snd ?g))" for k
        using Some o g by (simp add: merge_within_def Let_def case_prod_beta)
      have 3: "?w x = Some y \<longleftrightarrow> (\<exists>z. x = Some z \<and> ?w (Some z) = Some y)" for x
        by (cases x) simp_all
      show ?thesis unfolding 1 2 3 [of "merge_loop L db replace ?t (snd ?g)"]
          3 [of "merge_rounds k L db replace ?t (snd ?g)" for k] loop_rounds_iff
        by blast
    qed
  qed
qed

lemma merge_fault:
  assumes "handles n db = Some t0" "c_dbxml_merge L db f replace n = Some (Inl flt)"
  shows "\<exists>what. flt = Uncaught what"
proof -
  let ?t = "t0\<lparr>errstring := [], error := False\<rparr>"
  let ?o = "lib L (MergeOpenContainer db f) (enter F_merge db n)"
  let ?g = "lib L (MergeGetAllDocuments db) (snd ?o)"
  show ?thesis
  proof (cases "fst ?o")
    case (Inl what)
    with assms show ?thesis
      by (auto simp: c_dbxml_merge_def Let_def case_prod_beta)
  next
    case o: (Inr v)
    show ?thesis
    proof (cases "fst ?g")
      case (Inl what)
      with assms o show ?thesis
        by (auto simp: c_dbxml_merge_def Let_def case_prod_beta)
    next
      case g: (Inr v')
      with assms o have "merge_loop L db replace ?t (snd ?g) = Some (Inl flt)"
        by (auto simp: c_dbxml_merge_def Let_def case_prod_beta split: option.splits sum.splits)
      then show ?thesis by (rule merge_loop_fault)
    qed
  qed
qed

lemma get_all_exact:
  assumes "handles n db = Some t"
  shows "case c_dbxml_get_all L db n of
           Inl f \<Rightarrow> \<exists>what. f = Uncaught what \<and>
                      fst (L (GetAllDocuments db (fresh n)) (engine n)) = Inl what
         | Inr (c, n') \<Rightarrow> error_state n' db = Some (False, []) \<and> thrown (trace n') = None"
  using assms
  by (simp add: c_dbxml_get_all_def nat_simps split: sum.split)

lemma size_exact:
  assumes "handles n db = Some t"
  shows "case c_dbxml_size L db n of
           Inl f \<Rightarrow> \<exists>what. f = Uncaught what \<and>
                      fst (L (GetNumDocuments db) (engine n)) = Inl what
         | Inr (k, n') \<Rightarrow> error_state n' db = error_state n db \<and> thrown (trace n') = None"
  using assms
  by (simp add: c_dbxml_size_def nat_simps split: sum.split)

lemma merge_exact:
  assumes "handles n db = Some t"
  shows "case c_dbxml_merge L db f replace n of
           None \<Rightarrow> \<forall>k. merge_within k L db f replace n = None
         | Some (Inl flt) \<Rightarrow> \<exists>what. flt = Uncaught what
         | Some (Inr (ret, n')) \<Rightarrow>
             (ret = 0 \<longleftrightarrow> thrown (trace n') \<noteq> None) \<and>
             error_state n' db = Some (reported (trace n'))"
proof (cases "c_dbxml_merge L db f replace n")
  case None
  have "merge_within k L db f replace n = None" for k
  proof (cases "merge_within k L db f replace n")
    case (Some y)
    then have "c_dbxml_merge L db f replace n = Some y" using merge_within_iff by blast
    with None show ?thesis by simp
  qed
  with None show ?thesis by simp
next
  case (Some x)
  show ?thesis
  proof (cases x)
    case (Inl flt)
    with Some merge_fault [OF assms, of L f replace flt] show ?thesis by simp
  next
    case (Inr b)
    with Some merge_error [OF assms, of L f replace] show ?thesis by simp
  qed
qed

section \<open>The claims\<close>

text \<open>
  C7, as the specification states it: every operation of the native layer that takes the
  connection handle clears the error flag and the error string when it starts and leaves the
  flag set exactly when it fails. It does not hold of \<open>c_dbxml_size\<close>, which neither
  clears nor sets anything: after a connection has been opened and a \<open>Get\<close> of a missing
  document has failed, \<open>Size\<close> returns 3 and no error, and the handle still holds the
  flag and the message of the failed \<open>Get\<close>.
\<close>

theorem size_keeps_error_state:
  "(case run scripted [AOpen ''db'', AGet 0 ''x'']
           (boot (opened_ok @ [Inl ''Document not found'', Inr (VNat 3)])) of
      None \<Rightarrow> False
    | Some s \<Rightarrow>
       (case Db_Size scripted 0 s of
          Inl f \<Rightarrow> False
        | Inr ((k, e), s') \<Rightarrow>
            k = 3 \<and> e = None \<and>
            error_state (native s') 1 = Some (True, ''Document not found'')))"
  by (simp add: native_defs go_defs)

text \<open>
  C7, amended. Of the operations that take the handle, \<open>c_dbxml_put_file\<close>,
  \<open>c_dbxml_put_xml\<close>, \<open>c_dbxml_remove\<close>, \<open>c_dbxml_get\<close> and \<open>c_dbxml_get_query\<close>
  always return; whatever flag and string the handle held before, on return the flag is
  set exactly when the last library call of the operation threw, which for the operations
  with a return code is exactly when they return 0, and the string is the message of that
  exception when the flag is set and empty when it is not. The same holds of
  \<open>c_dbxml_merge\<close> when it returns. It ends, with a return or with an exception that
  leaves it, exactly when its loop ends after some number \<open>k\<close> of rounds, and then as the
  loop cut off after \<open>k\<close> rounds does; an exception that leaves it is one that the library
  threw and that no handler caught; otherwise the loop never ends. \<open>c_dbxml_get_all\<close>
  and \<open>c_dbxml_size\<close> return exactly when their library call does not throw, and
  otherwise the exception leaves them; when it returns, \<open>c_dbxml_get_all\<close> leaves the
  flag clear and the string empty, and \<open>c_dbxml_size\<close> leaves flag and string as they
  were.
\<close>

theorem native_error_state:
  assumes "handles n db = Some t"
  shows "(case c_dbxml_put_file L db filename replace n of
            Inl f \<Rightarrow> False
          | Inr (ret, n') \<Rightarrow>
              (ret = 0 \<longleftrightarrow> thrown (trace n') \<noteq> None) \<and>
              error_state n' db = Some (reported (trace n'))) \<and>
         (case c_dbxml_put_xml L db nm data replace n of
            Inl f \<Rightarrow> False
          | Inr (ret, n') \<Rightarrow>
              (ret = 0 \<longleftrightarrow> thrown (trace n') \<noteq> None) \<and>
              error_state n' db = Some (reported (trace n'))) \<and>
         (case c_dbxml_remove L db nm n of
            Inl f \<Rightarrow> False
          | Inr (ret, n') \<Rightarrow>
              (ret = 0 \<longleftrightarrow> thrown (trace n') \<noteq> None) \<and>
              error_state n' db = Some (reported (trace n'))) \<and>
         (case c_dbxml_get L db nm n of
            Inl f \<Rightarrow> False
          | Inr (str, n') \<Rightarrow> error_state n' db = Some (reported (trace n'))) \<and>
         (case c_dbxml_get_query L db query n of
            Inl f \<Rightarrow> False
          | Inr (c, n') \<Rightarrow> error_state n' db = Some (reported (trace n'))) \<and>
         (\<forall>y. c_dbxml_merge L db dbxmlfile replace n = Some y \<longleftrightarrow>
              (\<exists>k. merge_within k L db dbxmlfile replace n = Some y)) \<and>
         (case c_dbxml_merge L db dbxmlfile replace n of
            None \<Rightarrow> \<forall>k. merge_within k L db dbxmlfile replace n = None
          | Some (Inl f) \<Rightarrow> \<exists>what. f = Uncaught what
          | Some (Inr (ret, n')) \<Rightarrow>
              (ret = 0 \<longleftrightarrow> thrown (trace n') \<noteq> None) \<and>
              error_state n' db = Some (reported (trace n'))) \<and>
         (case c_dbxml_get_all L db n of
            Inl f \<Rightarrow> \<exists>what. f = Uncaught what \<and>
                       fst (L (GetAllDocuments db (fresh n)) (engine n)) = Inl what
          | Inr (c, n') \<Rightarrow> error_state n' db = Some (False, []) \<and> thrown (trace n') = None) \<and>
         (case c_dbxml_size L db n of
            Inl f \<Rightarrow> \<exists>what. f = Uncaught what \<and>
                       fst (L (GetNumDocuments db) (engine n)) = Inl what
          | Inr (k, n') \<Rightarrow> error_state n' db = error_state n db \<and> thrown (trace n') = None)"
proof -
  have q: "case c_dbxml_get_query L db query n of
            Inl f \<Rightarrow> False
          | Inr (c, n') \<Rightarrow> error_state n' db = Some (reported (trace n'))"
    using get_query_error [OF assms, where L = L and q = query]
    by (simp split: sum.splits prod.splits)
  have m: "\<forall>y. c_dbxml_merge L db dbxmlfile replace n = Some y \<longleftrightarrow>
              (\<exists>k. merge_within k L db dbxmlfile replace n = Some y)"
    using merge_within_iff by blast
  show ?thesis
    using put_file_error [OF assms, where L = L and nm = filename and replace = replace]
      put_xml_error [OF assms, where L = L and nm = nm and data = data and replace = replace]
      remove_error [OF assms, where L = L and nm = nm]
      get_error [OF assms, where L = L and nm = nm] q m
      merge_exact [OF assms, where L = L and f = dbxmlfile and replace = replace]
      get_all_exact [OF assms, where L = L] size_exact [OF assms, where L = L]
    by (intro conjI)
qed

theorem native_error_state_witness:
  "handles (stale_native [Inl ''no such document'', Inr VUnit]) 1
     = Some \<lparr>config_readOnly = False, error = True, errstring = ''stale'', result = []\<rparr> \<and>
   (case c_dbxml_put_xml scripted 1 ''a'' ''<a/>'' 1
           (stale_native [Inl ''no such document'', Inr VUnit]) of
      Inl f \<Rightarrow> False
    | Inr (ret, n') \<Rightarrow> ret = 1 \<and> error_state n' 1 = Some (False, [])) \<and>
   (case c_dbxml_remove scripted 1 ''a'' (stale_native [Inl ''no such document'']) of
      Inl f \<Rightarrow> False
    | Inr (ret, n') \<Rightarrow> ret = 0 \<and> error_state n' 1 = Some (True, ''no such document'')) \<and>
   (case c_dbxml_merge scripted 1 ''other'' 0
           (stale_native [Inr VUnit, Inr VUnit, Inr (VBool True), Inr VUnit, Inr (VBool False)]) of
      None \<Rightarrow> False
    | Some (Inl f) \<Rightarrow> False
    | Some (Inr (ret, n')) \<Rightarrow> ret = 1 \<and> error_state n' 1 = Some (False, [])) \<and>
   (case c_dbxml_merge scripted 1 ''other'' 0
           (stale_native [Inr VUnit, Inr VUnit, Inr (VBool True), Inl ''duplicate'']) of
      None \<Rightarrow> False
    | Some (Inl f) \<Rightarrow> False
    | Some (Inr (ret, n')) \<Rightarrow> ret = 0 \<and> error_state n' 1 = Some (True, ''duplicate'')) \<and>
   c_dbxml_merge scripted 1 ''other'' 0 (stale_native [Inl ''no such container''])
     = Some (Inl (Uncaught ''no such container''))"
proof -
  let ?t = "\<lparr>config_readOnly = False, error = True, errstring = ''stale'', result = []\<rparr>"
  let ?w1 = "[Inr VUnit, Inr VUnit, Inr (VBool True), Inr VUnit, Inr (VBool False)]"
  let ?w2 = "[Inr VUnit, Inr VUnit, Inr (VBool True), Inl ''duplicate'']"
  let ?w3 = "[Inl ''no such container'']"
  have h: "handles (stale_native w) 1 = Some ?t" for w :: "(string + libval) list"
    by (simp add: stale_native_def)
  note a = native_error_state [OF h [of "[Inl ''no such document'', Inr VUnit]"], where L = scripted and nm = "''a''"
      and data = "''<a/>''" and replace = 1]
  note b = native_error_state [OF h [of "[Inl ''no such document'']"], where L = scripted and nm = "''a''"]
  from a have 1: "(case c_dbxml_put_xml scripted 1 ''a'' ''<a/>'' 1
           (stale_native [Inl ''no such document'', Inr VUnit]) of
      Inl f \<Rightarrow> False
    | Inr (ret, n') \<Rightarrow> ret = 1 \<and> error_state n' 1 = Some (False, []))"
    by (simp add: native_defs go_defs)
  from b have 2: "(case c_dbxml_remove scripted 1 ''a'' (stale_native [Inl ''no such document'']) of
      Inl f \<Rightarrow> False
    | Inr (ret, n') \<Rightarrow> ret = 0 \<and> error_state n' 1 = Some (True, ''no such document''))"
    by (simp add: native_defs go_defs)
  obtain n1 where m1: "merge_within 2 scripted 1 ''other'' 0 (stale_native ?w1) = Some (Inr (1, n1))"
    "error_state n1 1 = Some (False, [])"
    by (simp add: merge_within_def native_defs go_defs numeral_2_eq_2)
  obtain n2 where m2: "merge_within 2 scripted 1 ''other'' 0 (stale_native ?w2) = Some (Inr (0, n2))"
    "error_state n2 1 = Some (True, ''duplicate'')"
    by (simp add: merge_within_def native_defs go_defs numeral_2_eq_2)
  have m3: "merge_within 0 scripted 1 ''other'' 0 (stale_native ?w3)
      = Some (Inl (Uncaught ''no such container''))"
    by (simp add: merge_within_def native_defs go_defs)
  note c1 = native_error_state [OF h [of ?w1], where L = scripted and dbxmlfile = "''other''"
      and replace = 0]
  note c2 = native_error_state [OF h [of ?w2], where L = scripted and dbxmlfile = "''other''"
      and replace = 0]
  note c3 = native_error_state [OF h [of ?w3], where L = scripted and dbxmlfile = "''other''"
      and replace = 0]
  from c1 m1(1) have 3: "c_dbxml_merge scripted 1 ''other'' 0 (stale_native ?w1) = Some (Inr (1, n1))"
    by blast
  from c2 m2(1) have 4: "c_dbxml_merge scripted 1 ''other'' 0 (stale_native ?w2) = Some (Inr (0, n2))"
    by blast
  from c3 m3 have 5: "c_dbxml_merge scripted 1 ''other'' 0 (stale_native ?w3)
      = Some (Inl (Uncaught ''no such container''))"
    by blast
  from h 1 2 3 4 5 m1(2) m2(2) show ?thesis by simp
qed

text \<open>
  C9. On an open connection, \<open>PutXml\<close> and \<open>PutFile\<close> with \<open>replace = true\<close> return,
  and the native layer has then called the library as follows: first the deletion of the
  document of that name, with whatever outcome \<open>d\<close> the engine gives it, and then, whether
  \<open>d\<close> is an exception or not, the insertion (for \<open>PutFile\<close>: the creation of the input
  stream and, unless that throws, the insertion). The error returned is made from the
  exception of the insertion and is \<open>nil\<close> when the insertion throws nothing; \<open>d\<close> has
  no part in it.
\<close>

theorem replace_delete_swallowed:
  assumes "heap_db s r = Some db" and "db_opened db"
    and "handles (native s) (db_db db) = Some t"
  shows "(case Db_PutXml L r nm data True s of
            Inl f \<Rightarrow> False
          | Inr (err, s') \<Rightarrow>
              (\<exists>d p. d = fst (L (DeleteDocument (db_db db) nm) (engine (native s))) \<and>
                 trace (native s') =
                   trace (native s) @
                   [Call F_put_xml (db_db db), Lib (DeleteDocument (db_db db) nm) d,
                    Lib (PutDocumentString (db_db db) nm data) p] @
                   (case p of Inl what \<Rightarrow> [Call F_errstring (db_db db)] | Inr v \<Rightarrow> []) \<and>
                 err = (case p of Inl what \<Rightarrow> Some (errors_New what) | Inr v \<Rightarrow> None))) \<and>
         (case Db_PutFile L r filename True s of
            Inl f \<Rightarrow> False
          | Inr (err, s') \<Rightarrow>
              (\<exists>d p. d = fst (L (DeleteDocument (db_db db) filename) (engine (native s))) \<and>
                 trace (native s') =
                   trace (native s) @
                   [Call F_put_file (db_db db), Lib (DeleteDocument (db_db db) filename) d] @ p \<and>
                 ((\<exists>what. p = [Lib (CreateLocalFileInputStream (db_db db) filename) (Inl what),
                               Call F_errstring (db_db db)] \<and>
                          err = Some (errors_New what)) \<or>
                  (\<exists>v what. p = [Lib (CreateLocalFileInputStream (db_db db) filename) (Inr v),
                                 Lib (PutDocumentStream (db_db db) filename) (Inl what),
                                 Call F_errstring (db_db db)] \<and>
                            err = Some (errors_New what)) \<or>
                  (\<exists>v v'. p = [Lib (CreateLocalFileInputStream (db_db db) filename) (Inr v),
                               Lib (PutDocumentStream (db_db db) filename) (Inr v')] \<and>
                          err = None))))"
proof -
  have xml: "case Db_PutXml L r nm data True s of
            Inl f \<Rightarrow> False
          | Inr (err, s') \<Rightarrow>
              (\<exists>d p. d = fst (L (DeleteDocument (db_db db) nm) (engine (native s))) \<and>
                 trace (native s') =
                   trace (native s) @
                   [Call F_put_xml (db_db db), Lib (DeleteDocument (db_db db) nm) d,
                    Lib (PutDocumentString (db_db db) nm data) p] @
                   (case p of Inl what \<Rightarrow> [Call F_errstring (db_db db)] | Inr v \<Rightarrow> []) \<and>
                 err = (case p of Inl what \<Rightarrow> Some (errors_New what) | Inr v \<Rightarrow> None))"
    using assms
    by (simp add: Db_PutXml_def c_dbxml_put_xml_def c_dbxml_errstring_def nat_simps
             split: sum.split)
  have fil: "case Db_PutFile L r filename True s of
            Inl f \<Rightarrow> False
          | Inr (err, s') \<Rightarrow>
              (\<exists>d p. d = fst (L (DeleteDocument (db_db db) filename) (engine (native s))) \<and>
                 trace (native s') =
                   trace (native s) @
                   [Call F_put_file (db_db db), Lib (DeleteDocument (db_db db) filename) d] @ p \<and>
                 ((\<exists>what. p = [Lib (CreateLocalFileInputStream (db_db db) filename) (Inl what),
                               Call F_errstring (db_db db)] \<and>
                          err = Some (errors_New what)) \<or>
                  (\<exists>v what. p = [Lib (CreateLocalFileInputStream (db_db db) filename) (Inr v),
                                 Lib (PutDocumentStream (db_db db) filename) (Inl what),
                                 Call F_errstring (db_db db)] \<and>
                            err = Some (errors_New what)) \<or>
                  (\<exists>v v'. p = [Lib (CreateLocalFileInputStream (db_db db) filename) (Inr v),
                               Lib (PutDocumentStream (db_db db) filename) (Inr v')] \<and>
                          err = None)))"
    using assms
    by (simp add: Db_PutFile_def c_dbxml_put_file_def c_dbxml_errstring_def nat_simps
             split: sum.split)
  from xml fil show ?thesis ..
qed

theorem replace_delete_swallowed_witness:
  "map_option db_opened (heap_db (opened_world [Inl ''Document not found'', Inr VUnit]) 0)
     = Some True \<and>
   map_option db_db (heap_db (opened_world [Inl ''Document not found'', Inr VUnit]) 0)
     = Some 1 \<and>
   (case Db_PutXml scripted 0 ''a'' ''<a/>'' True
           (opened_world [Inl ''Document not found'', Inr VUnit]) of
      Inl f \<Rightarrow> False
    | Inr (err, s') \<Rightarrow>
        err = None \<and>
        drop 6 (trace (native s')) =
          [Call F_put_xml 1, Lib (DeleteDocument 1 ''a'') (Inl ''Document not found''),
           Lib (PutDocumentString 1 ''a'' ''<a/>'') (Inr VUnit)])"
  using replace_delete_swallowed [where s = "opened_world [Inl ''Document not found'', Inr VUnit]"
      and r = 0 and L = scripted and nm = "''a''" and data = "''<a/>''"
      and db = "\<lparr>db_opened = True, db_db = 1, db_next = 0, db_docss = Map.empty\<rparr>"
      and t = "\<lparr>config_readOnly = False, error = False, errstring = [], result = []\<rparr>"]
  by (simp add: native_defs go_defs)

lemma Db_Close_marks:
  assumes "Db_Close L r s = Inr s'"
  shows "\<exists>db'. heap_db s' r = Some db' \<and> \<not> db_opened db'"
proof -
  from assms obtain db where db: "heap_db s r = Some db"
    by (auto simp: Db_Close_def split: option.splits)
  show ?thesis
  proof (cases "db_opened db")
    case False
    from Db_Close_closed [OF db False, of L] assms db False show ?thesis by simp
  next
    case True
    with assms db obtain s1 n2 db1 where "s' = closed_db r db1 n2 s1"
      by (auto simp: Db_Close_def closed_db_def split: option.splits sum.splits)
    then show ?thesis by simp
  qed
qed

lemma keeps_closed_db_at:
  assumes "keeps s s'" "r < new_db s" "heap_db s r = Some db" "\<not> db_opened db"
  shows "\<exists>db'. heap_db s' r = Some db' \<and> \<not> db_opened db'"
  using assms unfolding keeps_def by blast

lemma keeps_closed_docs_at:
  assumes "keeps s s'" "d < new_docs s" "heap_docs s d = Some x" "\<not> docs_opened x"
  shows "heap_docs s' d = Some x"
  using assms unfolding keeps_def by blast

lemma closed_after_Close:
  assumes "run L (pre @ AClose r # post) (boot w) = Some s"
  shows "\<exists>db. heap_db s r = Some db \<and> \<not> db_opened db"
proof -
  from assms obtain s0 s1 where s0: "run L pre (boot w) = Some s0" and
    c: "Db_Close L r s0 = Inr s1" and p: "run L post s1 = Some s"
    by (auto simp: run_append split: option.splits sum.splits)
  from c have "r \<in> dom (heap_db s0)" by (auto simp: Db_Close_def split: option.splits)
  with run_alloc [OF s0] have "r < new_db s0" unfolding alloc_ok_def by blast
  moreover from Db_Close_keeps [OF c] have "new_db s0 \<le> new_db s1" unfolding keeps_def by blast
  ultimately have r: "r < new_db s1" by simp
  from Db_Close_marks [OF c] obtain db1 where "heap_db s1 r = Some db1" "\<not> db_opened db1" by blast
  from keeps_closed_db_at [OF run_keeps [OF p] r this] show ?thesis .
qed

text \<open>
  C2. In every program in which \<open>Close\<close> has been called on a connection and has returned,
  at every later point each of \<open>PutFile\<close>, \<open>PutXml\<close>, \<open>Merge\<close>, \<open>Remove\<close>, \<open>Get\<close> and
  \<open>Size\<close> on that connection returns \<open>errclosed\<close> and leaves the world as it is, the
  trace of the native side included: no function of the native layer has been called.
  \<open>All\<close> and \<open>Query\<close> return \<open>errclosed\<close> too, with the native side as it is; the only
  thing they do is to allocate the Go object they return.
\<close>

theorem closed_connection_errclosed:
  assumes "run L (pre @ AClose r # post) (boot w) = Some s"
  shows "Db_PutFile L r filename replace s = Inr (Some errclosed, s) \<and>
         Db_PutXml L r nm data replace s = Inr (Some errclosed, s) \<and>
         Db_Merge L r filename replace s = Some (Inr (Some errclosed, s)) \<and>
         Db_Remove L r nm s = Inr (Some errclosed, s) \<and>
         Db_Get L r nm s = Inr (([], Some errclosed), s) \<and>
         Db_Size L r s = Inr ((0, Some errclosed), s) \<and>
         (\<exists>s'. Db_All L r s = Inr ((new_docs s, Some errclosed), s') \<and> native s' = native s) \<and>
         (\<exists>s'. Db_Query L r query s = Inr ((new_docs s, Some errclosed), s') \<and>
               native s' = native s)"
proof -
  from closed_after_Close [OF assms] obtain db where db: "heap_db s r = Some db" "\<not> db_opened db"
    by blast
  have "Db_PutFile L r filename replace s = Inr (Some errclosed, s)"
    using db by (simp add: Db_PutFile_def)
  moreover have "Db_PutXml L r nm data replace s = Inr (Some errclosed, s)"
    using db by (simp add: Db_PutXml_def)
  moreover have "Db_Merge L r filename replace s = Some (Inr (Some errclosed, s))"
    using db by (simp add: Db_Merge_def)
  moreover have "Db_Remove L r nm s = Inr (Some errclosed, s)"
    using db by (simp add: Db_Remove_def)
  moreover have "Db_Get L r nm s = Inr (([], Some errclosed), s)"
    using db by (simp add: Db_Get_def)
  moreover have "Db_Size L r s = Inr ((0, Some errclosed), s)"
    using db by (simp add: Db_Size_def)
  moreover have "\<exists>s'. Db_All L r s = Inr ((new_docs s, Some errclosed), s') \<and> native s' = native s"
    using All_closed [OF db, of L] by simp
  moreover have "\<exists>s'. Db_Query L r query s = Inr ((new_docs s, Some errclosed), s') \<and>
               native s' = native s"
    using Query_closed [OF db, of L query] by simp
  ultimately show ?thesis by blast
qed

theorem closed_connection_errclosed_witness:
  "(case run scripted [AOpen ''db'', AClose 0, AOpen ''other'']
           (boot (opened_ok @ [Inr VUnit] @ opened_ok)) of
      None \<Rightarrow> False
    | Some s \<Rightarrow>
        Db_Get scripted 0 ''a'' s = Inr (([], Some errclosed), s) \<and>
        Db_Remove scripted 0 ''a'' s = Inr (Some errclosed, s) \<and>
        map_option db_opened (heap_db s 1) = Some True)"
proof -
  obtain s where s: "run scripted ([AOpen ''db''] @ AClose 0 # [AOpen ''other''])
      (boot (opened_ok @ [Inr VUnit] @ opened_ok)) = Some s"
    by (simp add: native_defs go_defs)
  from closed_connection_errclosed [OF s, of "''a''" "True" "''a''" "''<a/>''" "''q''"]
  have "Db_Get scripted 0 ''a'' s = Inr (([], Some errclosed), s)"
    "Db_Remove scripted 0 ''a'' s = Inr (Some errclosed, s)" by simp_all
  moreover from s have "map_option db_opened (heap_db s 1) = Some True"
    by (auto simp: native_defs go_defs)
  ultimately show ?thesis using s by simp
qed

lemma Query_failed:
  assumes "heap_db s r = Some db" "db_opened db"
    and "c_dbxml_get_query L (db_db db) query (native s) = Inr (c, n1)"
    and "error_state n1 (db_db db) = Some (True, what)"
  shows "Db_Query L r query s =
           Inr ((new_docs s, Some (errors_New what)),
                added_docs (zero_Docs\<lparr>docs_docs := Some c\<rparr>)
                  (enter F_errstring (db_db db) (enter F_error (db_db db) n1)) s)"
proof -
  from assms(4) obtain t1 where t1: "handles n1 (db_db db) = Some t1" "error t1" "errstring t1 = what"
    by (auto simp: error_state_def)
  have t2: "handles (enter F_error (db_db db) n1) (db_db db) = Some t1" using t1 by simp
  show ?thesis
    using Query_opened [OF assms(1,2), of L query] assms(3) error_total [OF t1(1)]
      errstring_total [OF t2] t1(2,3)
    by simp
qed

lemma closed_docs_forever:
  assumes "heap_docs s d = Some x" "\<not> docs_opened x" "d < new_docs s" "run L as s = Some s'"
  shows "Docs_Next L d s' = Inr (False, s') \<and> Docs_Name L d s' = Inr ([], s') \<and>
         Docs_Content L d s' = Inr ([], s') \<and> Docs_Close L d s' = Inr s'"
proof -
  from keeps_closed_docs_at [OF run_keeps [OF assms(4)] assms(3,1,2)]
  have x: "heap_docs s' d = Some x" .
  with assms(2) show ?thesis
    by (simp add: Next_closed Docs_Name_def Docs_Content_def Docs_Close_def Docs_close_closed)
qed

text \<open>
  C6. On an open connection, when the construction of the query fails in the native layer
  (\<open>c_dbxml_get_query\<close> leaves the error flag set, with the message \<open>what\<close>), \<open>Query\<close>
  returns the error made from \<open>what\<close> together with an iterator whose \<open>Next\<close> returns
  false at once, and returns false after any further calls whatever.
\<close>

theorem failed_Query_exhausted:
  assumes "heap_db s r = Some db" "db_opened db"
    and "c_dbxml_get_query L (db_db db) query (native s) = Inr (c, n1)"
    and "error_state n1 (db_db db) = Some (True, what)"
  shows "\<exists>s'. Db_Query L r query s = Inr ((new_docs s, Some (errors_New what)), s') \<and>
           Docs_Next L (new_docs s) s' = Inr (False, s') \<and>
           (\<forall>as s''. run L as s' = Some s'' \<longrightarrow>
              Docs_Next L (new_docs s) s'' = Inr (False, s''))"
proof -
  let ?s' = "added_docs (zero_Docs\<lparr>docs_docs := Some c\<rparr>)
                  (enter F_errstring (db_db db) (enter F_error (db_db db) n1)) s"
  have x: "heap_docs ?s' (new_docs s) = Some (zero_Docs\<lparr>docs_docs := Some c\<rparr>)"
    "\<not> docs_opened (zero_Docs\<lparr>docs_docs := Some c\<rparr>)" "new_docs s < new_docs ?s'"
    by (simp_all add: zero_Docs_def)
  from closed_docs_forever [OF x, of L] have
    "\<forall>as s''. run L as ?s' = Some s'' \<longrightarrow> Docs_Next L (new_docs s) s'' = Inr (False, s'')"
    by blast
  moreover from closed_docs_forever [OF x, of L "[]"] have
    "Docs_Next L (new_docs s) ?s' = Inr (False, ?s')" by simp
  ultimately show ?thesis using Query_failed [OF assms] by blast
qed

theorem failed_Query_exhausted_witness:
  "(case Db_Query scripted 0 ''//['' (opened_world [Inr VUnit, Inr VUnit, Inl ''XQuery parse error'']) of
      Inl f \<Rightarrow> False
    | Inr ((d, e), s') \<Rightarrow>
        d = 0 \<and> e = Some (errors_New ''XQuery parse error'') \<and>
        Docs_Next scripted 0 s' = Inr (False, s') \<and>
        (case run scripted [AAll 0, ANext 1, ANext 0] s' of
           None \<Rightarrow> False
         | Some s'' \<Rightarrow> Docs_Next scripted 0 s'' = Inr (False, s'')))"
proof -
  let ?s = "opened_world [Inr VUnit, Inr VUnit, Inl ''XQuery parse error'']"
  let ?db = "\<lparr>db_opened = True, db_db = 1, db_next = 0, db_docss = Map.empty\<rparr>"
  obtain n1 where g: "c_dbxml_get_query scripted (db_db ?db) ''//['' (native ?s) = Inr (2, n1)"
     "error_state n1 (db_db ?db) = Some (True, ''XQuery parse error'')"
    by (simp add: native_defs go_defs)
  have h: "heap_db ?s 0 = Some ?db"
    by (simp add: native_defs go_defs)
  have o: "db_opened ?db" by simp
  from failed_Query_exhausted [OF h o g]
  obtain s' where s': "Db_Query scripted 0 ''//['' ?s = Inr ((new_docs ?s, Some (errors_New ''XQuery parse error'')), s')"
    "Docs_Next scripted (new_docs ?s) s' = Inr (False, s')"
    "\<And>as s''. run scripted as s' = Some s'' \<Longrightarrow> Docs_Next scripted (new_docs ?s) s'' = Inr (False, s'')"
    by blast
  have nd: "new_docs ?s = 0" by (simp add: native_defs go_defs)
  obtain s'' where r: "run scripted [AAll 0, ANext 1, ANext 0] s' = Some s''"
    using s'(1) by (auto simp: native_defs go_defs registered_def added_docs_def)
  from s'(3) [OF r] s' nd r show ?thesis by simp
qed

lemma run_snoc_inv:
  assumes "run L as (boot w) = Some s" "length as < 2 ^ 64"
  shows "wf s \<and> bounded (length as) s"
  using run_inv [OF boot_wf boot_bounded assms(1)] assms(2) by simp

text \<open>
  C10. In a world reached by fewer than \<open>2^64 - 1\<close> calls, when the construction of a query
  fails on an open connection, the iterator that \<open>Query\<close> returns is in no connection's
  map (no connection has changed), is not open, has no owner and no finalizer. Its
  \<open>Close\<close> returns with the world as it is. \<open>Close\<close> on the connection returns and leaves
  the iterator as it is, and the cursor struct that \<open>c_dbxml_get_query\<close> allocated for it
  still in the C++ heap: nothing has freed it.
\<close>

theorem failed_Query_unregistered:
  assumes "run L as (boot w) = Some s" "length as < 2 ^ 64 - 1"
    and "heap_db s r = Some db" "db_opened db"
    and "c_dbxml_get_query L (db_db db) query (native s) = Inr (c, n1)"
    and "error_state n1 (db_db db) = Some (True, what)"
  shows "\<exists>s'. Db_Query L r query s = Inr ((new_docs s, Some (errors_New what)), s') \<and>
           heap_db s' = heap_db s \<and>
           heap_docs s' (new_docs s) =
             Some \<lparr>docs_db = None, docs_id = 0, docs_started = False, docs_opened = False,
                    docs_docs = Some c\<rparr> \<and>
           new_docs s \<notin> fin_docs s' \<and>
           Docs_Close L (new_docs s) s' = Inr s' \<and>
           (\<exists>s''. Db_Close L r s' = Inr s'' \<and>
                  heap_docs s'' (new_docs s) = heap_docs s' (new_docs s) \<and>
                  c \<in> dom (cursors (native s'')))"
proof -
  let ?n3 = "enter F_errstring (db_db db) (enter F_error (db_db db) n1)"
  let ?y = "zero_Docs\<lparr>docs_docs := Some c\<rparr>"
  let ?s' = "added_docs ?y ?n3 s"
  let ?d = "new_docs s"
  note q = Query_failed [OF assms(3-6)]
  from assms(2) have l: "length as < 2 ^ 64" by simp
  from run_snoc_inv [OF assms(1) l] have w: "wf s" and b: "bounded (length as) s" by simp_all
  note inv = wfD [OF w]
  have nw: "\<forall>r db. heap_db s r = Some db \<longrightarrow> db_next db + 1 \<noteq> 0"
    using bounded_nowrap [OF b assms(2)] by blast
  from Query_wf [OF w q nw] have w': "wf ?s'" .
  note sh = get_query_shape [OF assms(5)]
  have y: "heap_docs ?s' ?d = Some ?y" "\<not> docs_opened ?y" by (simp_all add: zero_Docs_def)
  have fin: "?d \<notin> fin_docs ?s'"
    using run_alloc [OF assms(1)] unfolding alloc_ok_def by auto
  have dc: "Docs_Close L ?d ?s' = Inr ?s'"
    using Docs_close_closed [OF y] by (simp add: Docs_Close_def)
  have hdb: "heap_db ?s' r = Some db" using assms(3) by simp
  from Db_Close_wf [OF w' hdb assms(4), of L] obtain s'' where
    s'': "Db_Close L r ?s' = Inr s''" "close_post r ?s' s''" by blast
  note p = s''(2) [unfolded close_post_def]
  from p y have keep: "heap_docs s'' ?d = heap_docs ?s' ?d"
    by (simp add: close_owned_def)
  have "c \<notin> owned_cursors r ?s'"
  proof
    assume "c \<in> owned_cursors r ?s'"
    then obtain d' x' where x': "heap_docs ?s' d' = Some x'" "docs_opened x'" "docs_docs x' = Some c"
      unfolding owned_cursors_def by blast
    from x'(1,2) y(2) have "heap_docs s d' = Some x'" by (auto split: if_splits)
    from inv_live_cursorD [OF inv(4) this x'(2)] x'(3) have "c \<in> dom (cursors (native s))" by auto
    from inv_alloc_cursor [OF inv(1) this] sh show False by simp
  qed
  moreover have "c \<in> dom (cursors (native ?s'))" using sh by simp
  ultimately have cur: "c \<in> dom (cursors (native s''))" using p by simp
  have "heap_docs ?s' ?d = Some \<lparr>docs_db = None, docs_id = 0, docs_started = False,
           docs_opened = False, docs_docs = Some c\<rparr>"
    by (simp add: zero_Docs_def)
  moreover have "heap_db ?s' = heap_db s" by simp
  ultimately show ?thesis using q fin dc s''(1) keep cur by blast
qed

theorem failed_Query_unregistered_witness:
  "(case run scripted [AOpen ''db'', AAll 0] (boot query_script) of
      None \<Rightarrow> False
    | Some s \<Rightarrow>
       (case Db_Query scripted 0 ''//['' s of
          Inl f \<Rightarrow> False
        | Inr ((d, e), s') \<Rightarrow>
            d = 1 \<and> e = Some (errors_New ''XQuery parse error'') \<and>
            map_option docs_opened (heap_docs s' 1) = Some False \<and>
            fin_docs s' = {0} \<and>
            Docs_Close scripted 1 s' = Inr s' \<and>
            (case Db_Close scripted 0 s' of
               Inl f \<Rightarrow> False
             | Inr s'' \<Rightarrow>
                 map_option docs_docs (heap_docs s'' 1) = Some (Some 3) \<and>
                 map_option docs_opened (heap_docs s'' 0) = Some False \<and>
                 map_option c_more (cursors (native s'') 3) = Some False \<and>
                 cursors (native s'') 2 = None)))"
proof -
  let ?db = "\<lparr>db_opened = True, db_db = 1, db_next = 1, db_docss = [0 \<mapsto> 0]\<rparr>"
  obtain s where s: "run scripted [AOpen ''db'', AAll 0] (boot query_script) = Some s"
    by (simp add: native_defs go_defs query_script_def)
  have l: "length [AOpen ''db'', AAll 0] < 2 ^ 64 - 1" by simp
  from s have h: "heap_db s 0 = Some ?db"
    by (auto simp: native_defs go_defs query_script_def)
  have o: "db_opened ?db" by simp
  from s obtain n1 where g: "c_dbxml_get_query scripted (db_db ?db) ''//['' (native s) = Inr (3, n1)"
     "error_state n1 (db_db ?db) = Some (True, ''XQuery parse error'')"
    by (auto simp: native_defs go_defs query_script_def)
  show ?thesis
    using failed_Query_unregistered [OF s l h o g] s
    by (auto simp: native_defs go_defs query_script_def)
qed







lemma unstarted_refl: "unstarted d s s"
  by (simp add: unstarted_def)

lemma unstarted_trans: "unstarted d s s1 \<Longrightarrow> unstarted d s1 s2 \<Longrightarrow> unstarted d s s2"
  unfolding unstarted_def by blast

lemma quiet_unstarted: "quiet s s' \<Longrightarrow> unstarted d s s'"
  by (simp add: quiet_def unstarted_def)

lemma Docs_close_unstarted:
  assumes "Docs_close L d' s = Inr s'"
  shows "unstarted d s s'"
proof -
  from assms obtain x where x: "heap_docs s d' = Some x"
    by (auto simp: Docs_close_def split: option.splits)
  show ?thesis
  proof (cases "docs_opened x")
    case False
    from Docs_close_closed [OF x False, of L] assms show ?thesis by (simp add: unstarted_refl)
  next
    case True
    from Docs_close_result [OF assms x True] obtain r db n' where
      "s' = closed_docs d' x r db n' s" by blast
    with x show ?thesis by (simp add: unstarted_def)
  qed
qed

lemma Close_loop_unstarted:
  "Close_loop L r i s = Inr s' \<Longrightarrow> unstarted d s s'"
proof (induction L r i s rule: Close_loop.induct)
  case (1 L r i s)
  from 1(3) obtain db where db: "heap_db s r = Some db"
    by (cases "heap_db s r") (simp_all add: Close_loop.simps [of L r i s])
  show ?case
  proof (cases "i < db_next db")
    case False
    with 1(3) db show ?thesis by (simp add: Close_loop.simps [of L r i s] unstarted_refl)
  next
    case True
    show ?thesis
    proof (cases "db_docss db i")
      case None
      with 1(3) db True have "Close_loop L r (i + 1) s = Inr s'"
        by (simp add: Close_loop.simps [of L r i s])
      from 1(1) [OF db True None this] show ?thesis .
    next
      case (Some d')
      with 1(3) db True obtain s1 where s1: "Docs_Close L d' s = Inr s1"
        "Close_loop L r (i + 1) s1 = Inr s'"
        by (cases "Docs_Close L d' s") (simp_all add: Close_loop.simps [of L r i s])
      from s1(1) have "unstarted d s s1" by (simp add: Docs_Close_def Docs_close_unstarted)
      with 1(2) [OF db True Some s1] show ?thesis by (rule unstarted_trans [rotated])
    qed
  qed
qed

lemma Db_Close_unstarted:
  assumes "Db_Close L r s = Inr s'"
  shows "unstarted d s s'"
proof -
  from assms obtain db where db: "heap_db s r = Some db"
    by (auto simp: Db_Close_def split: option.splits)
  show ?thesis
  proof (cases "db_opened db")
    case False
    from Db_Close_closed [OF db False, of L] assms show ?thesis by (simp add: unstarted_refl)
  next
    case True
    with assms db obtain s1 n2 db1 where s1: "Close_loop L r 0 s = Inr s1"
      "heap_db s1 r = Some db1" "s' = closed_db r db1 n2 s1"
      by (auto simp: Db_Close_def closed_db_def split: option.splits sum.splits)
    from Close_loop_unstarted [OF s1(1), of d] s1(3) show ?thesis
      by (simp add: unstarted_def)
  qed
qed

lemma Open_unstarted: "Open L f s = Inr (x, s') \<Longrightarrow> unstarted d s s'"
  by (cases rule: Open_result [of L f s]) (auto simp: unstarted_def)

lemma All_unstarted:
  assumes "Db_All L r s = Inr (y, s')"
  shows "unstarted d s s'"
proof -
  from assms obtain db where db: "heap_db s r = Some db"
    by (auto simp: Db_All_def Let_def split: option.splits)
  show ?thesis
  proof (cases "db_opened db")
    case False
    from All_closed [OF db False, of L] assms show ?thesis
      by (auto simp: unstarted_def zero_Docs_def split: if_splits)
  next
    case True
    from All_opened [OF db True, of L] assms show ?thesis
      by (auto simp: unstarted_def split: sum.splits if_splits)
  qed
qed

lemma Query_unstarted:
  assumes "Db_Query L r q s = Inr (y, s')"
  shows "unstarted d s s'"
proof -
  from assms obtain db where db: "heap_db s r = Some db"
    by (auto simp: Db_Query_def Let_def split: option.splits)
  show ?thesis
  proof (cases "db_opened db")
    case False
    from Query_closed [OF db False, of L] assms show ?thesis
      by (auto simp: unstarted_def zero_Docs_def split: if_splits)
  next
    case True
    from Query_opened [OF db True, of L q] assms show ?thesis
      by (auto simp: unstarted_def zero_Docs_def split: sum.splits if_splits)
  qed
qed

lemma Next_unstarted:
  assumes "Docs_Next L d' s = Inr (b, s')" "d' \<noteq> d"
  shows "unstarted d s s'"
proof -
  from assms obtain x where x: "heap_docs s d' = Some x"
    by (auto simp: Docs_Next_def split: option.splits)
  show ?thesis
  proof (cases "docs_opened x")
    case False
    from Next_closed [OF x False, of L] assms show ?thesis by (simp add: unstarted_refl)
  next
    case True
    from assms x True obtain c where c: "docs_docs x = Some c"
      by (cases "docs_docs x") (auto simp: Docs_Next_def)
    from Next_opened [OF x True c, of L] assms obtain ret n1 where
      n: "c_dbxml_docs_next L c (native s) = Inr (ret, n1)"
      by (auto split: sum.splits)
    have k1: "unstarted d s (started d' x n1 s)" using assms(2) by (simp add: unstarted_def)
    show ?thesis
    proof (cases "ret = 0")
      case False
      with Next_opened [OF x True c, of L] assms n k1 show ?thesis by simp
    next
      case ret: True
      with Next_opened [OF x True c, of L] assms n have
        "Docs_close L d' (started d' x n1 s) = Inr s'" by (auto split: sum.splits)
      from unstarted_trans [OF k1 Docs_close_unstarted [OF this]] show ?thesis .
    qed
  qed
qed

lemma exec_unstarted:
  assumes "exec L a s = Some s'" "a \<noteq> ANext d"
  shows "unstarted d s s'"
proof (cases a)
  case (AOpen f)
  with assms obtain x where "Open L f s = Inr (x, s')"
    by (auto simp: returned_def split: sum.splits)
  then show ?thesis by (rule Open_unstarted)
next
  case (AClose r)
  with assms have "Db_Close L r s = Inr s'" by (auto split: sum.splits)
  then show ?thesis by (rule Db_Close_unstarted)
next
  case (APutFile r f b)
  with assms obtain x where "Db_PutFile L r f b s = Inr (x, s')"
    by (auto simp: returned_def split: sum.splits)
  from PutFile_quiet [OF this] show ?thesis by (rule quiet_unstarted)
next
  case (APutXml r f d b)
  with assms obtain x where "Db_PutXml L r f d b s = Inr (x, s')"
    by (auto simp: returned_def split: sum.splits)
  from PutXml_quiet [OF this] show ?thesis by (rule quiet_unstarted)
next
  case (AMerge r f b)
  with assms obtain x where "Db_Merge L r f b s = Some (Inr (x, s'))"
    by (auto simp: returned_def split: sum.splits option.splits)
  from Merge_quiet [OF this] show ?thesis by (rule quiet_unstarted)
next
  case (ARemove r f)
  with assms obtain x where "Db_Remove L r f s = Inr (x, s')"
    by (auto simp: returned_def split: sum.splits)
  from Remove_quiet [OF this] show ?thesis by (rule quiet_unstarted)
next
  case (AGet r f)
  with assms obtain x where "Db_Get L r f s = Inr (x, s')"
    by (auto simp: returned_def split: sum.splits)
  from Get_quiet [OF this] show ?thesis by (rule quiet_unstarted)
next
  case (ASize r)
  with assms obtain x where "Db_Size L r s = Inr (x, s')"
    by (auto simp: returned_def split: sum.splits)
  from Size_quiet [OF this] show ?thesis by (rule quiet_unstarted)
next
  case (AAll r)
  with assms obtain x where "Db_All L r s = Inr (x, s')"
    by (auto simp: returned_def split: sum.splits)
  then show ?thesis by (rule All_unstarted)
next
  case (AQuery r q)
  with assms obtain x where "Db_Query L r q s = Inr (x, s')"
    by (auto simp: returned_def split: sum.splits)
  then show ?thesis by (rule Query_unstarted)
next
  case (ANext d')
  with assms obtain x where "Docs_Next L d' s = Inr (x, s')" "d' \<noteq> d"
    by (auto simp: returned_def split: sum.splits)
  then show ?thesis by (rule Next_unstarted)
next
  case (AName d)
  with assms obtain x where "Docs_Name L d s = Inr (x, s')"
    by (auto simp: returned_def split: sum.splits)
  from Name_quiet [OF this] show ?thesis by (rule quiet_unstarted)
next
  case (AContent d)
  with assms obtain x where "Docs_Content L d s = Inr (x, s')"
    by (auto simp: returned_def split: sum.splits)
  from Content_quiet [OF this] show ?thesis by (rule quiet_unstarted)
next
  case (ADocsClose d')
  with assms have "Docs_close L d' s = Inr s'"
    by (auto simp: Docs_Close_def split: sum.splits)
  then show ?thesis by (rule Docs_close_unstarted)
qed

lemma run_unstarted:
  "run L as s = Some s' \<Longrightarrow> ANext d \<notin> set as \<Longrightarrow> unstarted d s s'"
proof (induction as arbitrary: s)
  case Nil
  then show ?case by (simp add: unstarted_refl)
next
  case (Cons a as)
  from Cons.prems obtain s1 where s1: "exec L a s = Some s1" "run L as s1 = Some s'"
    by (auto split: option.splits)
  from Cons.prems(2) have "a \<noteq> ANext d" "ANext d \<notin> set as" by auto
  from unstarted_trans [OF exec_unstarted [OF s1(1) this(1)] Cons.IH [OF s1(2) this(2)]]
  show ?case .
qed

lemma never_Next_unstarted:
  assumes "run L as (boot w) = Some s" "ANext d \<notin> set as" "heap_docs s d = Some x"
  shows "\<not> docs_started x"
  using run_unstarted [OF assms(1,2)] assms(3) by (auto simp: unstarted_def boot_def)

text \<open>
  C5. In a world reached by the calls \<open>as\<close> (fewer than \<open>2^64\<close>), for an iterator \<open>d\<close>:
  when no call of \<open>as\<close> is a \<open>Next\<close> on \<open>d\<close>, or \<open>d\<close> is closed, \<open>Name\<close> and \<open>Content\<close>
  return the empty string and change nothing. When \<open>d\<close> is open, it has an owner, \<open>Close\<close>
  on the owner returns, and after it and any further calls \<open>Next\<close> on \<open>d\<close> returns false
  and \<open>Name\<close> and \<open>Content\<close> return the empty string.
\<close>

theorem Name_Content_empty:
  assumes "run L as (boot w) = Some s" "length as < 2 ^ 64" "heap_docs s d = Some x"
  shows "(ANext d \<notin> set as \<or> \<not> docs_opened x \<longrightarrow>
            Docs_Name L d s = Inr ([], s) \<and> Docs_Content L d s = Inr ([], s)) \<and>
         (docs_opened x \<longrightarrow>
            (\<exists>r s1. docs_db x = Some r \<and> Db_Close L r s = Inr s1 \<and>
               (\<forall>bs s2. run L bs s1 = Some s2 \<longrightarrow>
                  Docs_Next L d s2 = Inr (False, s2) \<and> Docs_Name L d s2 = Inr ([], s2) \<and>
                  Docs_Content L d s2 = Inr ([], s2))))"
proof -
  have a: "Docs_Name L d s = Inr ([], s) \<and> Docs_Content L d s = Inr ([], s)"
    if "ANext d \<notin> set as \<or> \<not> docs_opened x"
  proof -
    from that never_Next_unstarted [OF assms(1) _ assms(3)]
    have "\<not> (docs_opened x \<and> docs_started x)" by blast
    with assms(3) show ?thesis by (simp add: Docs_Name_def Docs_Content_def)
  qed
  have b: "\<exists>r s1. docs_db x = Some r \<and> Db_Close L r s = Inr s1 \<and>
               (\<forall>bs s2. run L bs s1 = Some s2 \<longrightarrow>
                  Docs_Next L d s2 = Inr (False, s2) \<and> Docs_Name L d s2 = Inr ([], s2) \<and>
                  Docs_Content L d s2 = Inr ([], s2))"
    if o: "docs_opened x"
  proof -
    from run_wf [OF assms(1,2)] have w: "wf s" .
    note inv = wfD [OF w]
    from inv(3) assms(3) o obtain r db where
      r: "docs_db x = Some r" "heap_db s r = Some db" "db_opened db"
      unfolding inv_owner_def by blast
    from Db_Close_wf [OF w r(2,3), of L] obtain s1 where
      s1: "Db_Close L r s = Inr s1" "close_post r s s1" by blast
    from s1(2) assms(3) o r(1) have
      x1: "heap_docs s1 d = Some (x\<lparr>docs_opened := False, docs_db := None\<rparr>)"
      and n: "new_docs s1 = new_docs s"
      by (simp_all add: close_post_def close_owned_def)
    from inv(1) assms(3) have "d < new_docs s" unfolding inv_alloc_def by blast
    with n have d: "d < new_docs s1" by simp
    have "Docs_Next L d s2 = Inr (False, s2) \<and> Docs_Name L d s2 = Inr ([], s2) \<and>
          Docs_Content L d s2 = Inr ([], s2)" if "run L bs s1 = Some s2" for bs s2
      using closed_docs_forever [OF x1 _ d that] by simp
    with r(1) s1(1) show ?thesis by blast
  qed
  from a b show ?thesis by blast
qed

theorem Name_Content_empty_witness:
  "(case run scripted [AOpen ''db'', AAll 0, AName 0]
           (boot (opened_ok @ [Inr VUnit, Inr (VBool True), Inr (VStr ''a.xml'')])) of
      None \<Rightarrow> False
    | Some s \<Rightarrow>
        Docs_Name scripted 0 s = Inr ([], s) \<and> Docs_Content scripted 0 s = Inr ([], s) \<and>
        (case Db_Close scripted 0 s of
           Inl f \<Rightarrow> False
         | Inr s1 \<Rightarrow>
            (case run scripted [ANext 0] s1 of
               None \<Rightarrow> False
             | Some s2 \<Rightarrow>
                 Docs_Next scripted 0 s2 = Inr (False, s2) \<and>
                 Docs_Name scripted 0 s2 = Inr ([], s2) \<and>
                 Docs_Content scripted 0 s2 = Inr ([], s2))))"
proof -
  let ?w = "opened_ok @ [Inr VUnit, Inr (VBool True), Inr (VStr ''a.xml'')]"
  let ?x = "\<lparr>docs_db = Some 0, docs_id = 0, docs_started = False, docs_opened = True,
             docs_docs = Some 2\<rparr>"
  obtain s where s: "run scripted [AOpen ''db'', AAll 0, AName 0] (boot ?w) = Some s"
    by (simp add: native_defs go_defs)
  have l: "length [AOpen ''db'', AAll 0, AName 0] < 2 ^ 64" by simp
  from s have h: "heap_docs s 0 = Some ?x"
    by (auto simp: native_defs go_defs)
  note t = Name_Content_empty [OF s l h]
  from t have a: "Docs_Name scripted 0 s = Inr ([], s)" "Docs_Content scripted 0 s = Inr ([], s)"
    by simp_all
  from t obtain s1 where s1: "Db_Close scripted 0 s = Inr s1" and
    f: "\<forall>bs s2. run scripted bs s1 = Some s2 \<longrightarrow>
          Docs_Next scripted 0 s2 = Inr (False, s2) \<and> Docs_Name scripted 0 s2 = Inr ([], s2) \<and>
          Docs_Content scripted 0 s2 = Inr ([], s2)"
    by auto
  from f [rule_format, of "[]"] have "Docs_Next scripted 0 s1 = Inr (False, s1)" by simp
  then obtain s2 where s2: "run scripted [ANext 0] s1 = Some s2"
    by (simp add: returned_def)
  from f [rule_format, OF s2] s s1 s2 a show ?thesis by simp
qed

lemma free_released:
  "c_dbxml_free L h n = Inr n' \<Longrightarrow> h \<notin> dom (handles n')"
  by (auto simp: c_dbxml_free_def Let_def split: option.splits)

lemma Docs_Close_twice:
  assumes "Docs_Close L d s = Inr s'"
  shows "Docs_Close L d s' = Inr s'"
proof -
  from assms obtain x where x: "heap_docs s d = Some x"
    by (auto simp: Docs_Close_def Docs_close_def split: option.splits)
  show ?thesis
  proof (cases "docs_opened x")
    case False
    from Docs_close_closed [OF x False, of L] assms show ?thesis by (simp add: Docs_Close_def)
  next
    case True
    from assms have "Docs_close L d s = Inr s'" by (simp add: Docs_Close_def)
    from Docs_close_result [OF this x True] obtain r db n' where
      "s' = closed_docs d x r db n' s" by blast
    then have "heap_docs s' d = Some (x\<lparr>docs_opened := False, docs_db := None\<rparr>)" by simp
    from Docs_close_closed [OF this, of L] show ?thesis by (simp add: Docs_Close_def)
  qed
qed

text \<open>
  C1. In a world reached by fewer than \<open>2^64\<close> calls, \<open>Close\<close> on an open connection
  returns. Its loop ends in a world \<open>s1\<close> in which every iterator that was in the map of
  the connection is closed and without owner, its cursor freed, the map is empty, and the
  handle of the connection is still there; then \<open>c_dbxml_free\<close> releases the handle, and
  the connection is marked as closed. A second \<open>Close\<close> of the connection, and \<open>Close\<close> of
  any of these iterators, returns and changes nothing. In any world, when \<open>Close\<close> of an
  iterator has returned, a second one returns and changes nothing.
\<close>

theorem Close_closes_all:
  assumes "run L as (boot w) = Some s" "length as < 2 ^ 64" "heap_db s r = Some db"
    "db_opened db"
  shows "(\<exists>s1 n2 s'.
           Close_loop L r 0 s = Inr s1 \<and>
           (\<forall>i d. db_docss db i = Some d \<longrightarrow>
              (\<exists>x c. heap_docs s d = Some x \<and> docs_opened x \<and> docs_docs x = Some c \<and>
                 c \<in> dom (cursors (native s)) \<and>
                 heap_docs s1 d = Some (x\<lparr>docs_opened := False, docs_db := None\<rparr>) \<and>
                 c \<notin> dom (cursors (native s1)) \<and>
                 Docs_Close L d s' = Inr s')) \<and>
           heap_db s1 r = Some (db\<lparr>db_docss := Map.empty\<rparr>) \<and>
           db_db db \<in> dom (handles (native s1)) \<and>
           c_dbxml_free L (db_db db) (native s1) = Inr n2 \<and>
           db_db db \<notin> dom (handles n2) \<and>
           s' = s1\<lparr>native := n2,
                   heap_db := (heap_db s1)(r \<mapsto> db\<lparr>db_docss := Map.empty, db_opened := False\<rparr>)\<rparr> \<and>
           Db_Close L r s = Inr s' \<and>
           Db_Close L r s' = Inr s') \<and>
         (\<forall>d sd. Docs_Close L d s = Inr sd \<longrightarrow> Docs_Close L d sd = Inr sd)"
proof -
  from run_wf [OF assms(1,2)] have w: "wf s" .
  note inv = wfD [OF w]
  from Close_loop_wf [OF w assms(3), of 0 L] obtain s1 where
    s1: "Close_loop L r 0 s = Inr s1" "loop_post r s s1" by auto
  note p = s1(2) [unfolded loop_post_def]
  let ?db1 = "db\<lparr>db_docss := Map.empty\<rparr>"
  from p assms(3) have h1: "heap_db s1 r = Some ?db1" by simp
  from inv_live_handleD [OF inv(4) assms(3,4)] p
  have live: "db_db db \<in> dom (handles (native s1))" by simp
  then obtain t where "handles (native s1) (db_db db) = Some t" by blast
  from free_total [OF this, of L] obtain n2 where
    n2: "c_dbxml_free L (db_db db) (native s1) = Inr n2" by blast
  let ?s' = "s1\<lparr>native := n2,
                 heap_db := (heap_db s1)(r \<mapsto> db\<lparr>db_docss := Map.empty, db_opened := False\<rparr>)\<rparr>"
  from assms(3,4) s1(1) n2 h1 have c: "Db_Close L r s = Inr ?s'"
    by (simp add: Db_Close_def)
  have "heap_db ?s' r = Some (db\<lparr>db_docss := Map.empty, db_opened := False\<rparr>)" by simp
  from Db_Close_closed [OF this, of L] have c2: "Db_Close L r ?s' = Inr ?s'" by simp
  have it: "\<exists>x c. heap_docs s d = Some x \<and> docs_opened x \<and> docs_docs x = Some c \<and>
                 c \<in> dom (cursors (native s)) \<and>
                 heap_docs s1 d = Some (x\<lparr>docs_opened := False, docs_db := None\<rparr>) \<and>
                 c \<notin> dom (cursors (native s1)) \<and>
                 Docs_Close L d ?s' = Inr ?s'"
    if "db_docss db i = Some d" for i d
  proof -
    from inv_childrenD [OF inv(2) assms(3) that] obtain x where
      x: "heap_docs s d = Some x" "docs_opened x" "docs_db x = Some r" by blast
    from inv_live_cursorD [OF inv(4) x(1,2)] obtain c where
      c: "docs_docs x = Some c" "c \<in> dom (cursors (native s))" by blast
    from p x have x1: "heap_docs s1 d = Some (x\<lparr>docs_opened := False, docs_db := None\<rparr>)"
      by (simp add: close_owned_def)
    from x c have "c \<in> owned_cursors r s" unfolding owned_cursors_def by blast
    with p have c1: "c \<notin> dom (cursors (native s1))" by simp
    from x1 have "heap_docs ?s' d = Some (x\<lparr>docs_opened := False, docs_db := None\<rparr>)" by simp
    from Docs_close_closed [OF this, of L] have "Docs_Close L d ?s' = Inr ?s'"
      by (simp add: Docs_Close_def)
    with x c x1 c1 show ?thesis by blast
  qed
  from s1(1) it h1 live n2 free_released [OF n2] c c2
  have "\<exists>s1 n2 s'.
           Close_loop L r 0 s = Inr s1 \<and>
           (\<forall>i d. db_docss db i = Some d \<longrightarrow>
              (\<exists>x c. heap_docs s d = Some x \<and> docs_opened x \<and> docs_docs x = Some c \<and>
                 c \<in> dom (cursors (native s)) \<and>
                 heap_docs s1 d = Some (x\<lparr>docs_opened := False, docs_db := None\<rparr>) \<and>
                 c \<notin> dom (cursors (native s1)) \<and>
                 Docs_Close L d s' = Inr s')) \<and>
           heap_db s1 r = Some (db\<lparr>db_docss := Map.empty\<rparr>) \<and>
           db_db db \<in> dom (handles (native s1)) \<and>
           c_dbxml_free L (db_db db) (native s1) = Inr n2 \<and>
           db_db db \<notin> dom (handles n2) \<and>
           s' = s1\<lparr>native := n2,
                   heap_db := (heap_db s1)(r \<mapsto> db\<lparr>db_docss := Map.empty, db_opened := False\<rparr>)\<rparr> \<and>
           Db_Close L r s = Inr s' \<and>
           Db_Close L r s' = Inr s'"
    by (intro exI [of _ s1] exI [of _ n2] exI [of _ ?s']) blast
  moreover have "\<forall>d sd. Docs_Close L d s = Inr sd \<longrightarrow> Docs_Close L d sd = Inr sd"
    using Docs_Close_twice by blast
  ultimately show ?thesis by blast
qed

theorem Close_closes_all_witness:
  "(case run scripted [AOpen ''db'', AAll 0, AQuery 0 ''//a'', ANext 1]
           (boot (opened_ok @ [Inr VUnit, Inr VUnit, Inr VUnit, Inr VUnit, Inr (VBool True)])) of
      None \<Rightarrow> False
    | Some s \<Rightarrow>
        map_option db_docss (heap_db s 0) = Some [0 \<mapsto> 0, 1 \<mapsto> 1] \<and>
        (case Db_Close scripted 0 s of
           Inl f \<Rightarrow> False
         | Inr s' \<Rightarrow>
             map_option docs_opened (heap_docs s' 0) = Some False \<and>
             map_option docs_opened (heap_docs s' 1) = Some False \<and>
             map_option db_opened (heap_db s' 0) = Some False \<and>
             map_option db_docss (heap_db s' 0) = Some Map.empty \<and>
             handles (native s') 1 = None \<and>
             cursors (native s') 2 = None \<and> cursors (native s') 3 = None \<and>
             Db_Close scripted 0 s' = Inr s' \<and>
             Docs_Close scripted 0 s' = Inr s' \<and> Docs_Close scripted 1 s' = Inr s'))"
proof -
  let ?as = "[AOpen ''db'', AAll 0, AQuery 0 ''//a'', ANext 1]"
  let ?db = "\<lparr>db_opened = True, db_db = 1, db_next = 2, db_docss = [0 \<mapsto> 0, 1 \<mapsto> 1]\<rparr>"
  obtain s where s: "run scripted ?as
      (boot (opened_ok @ [Inr VUnit, Inr VUnit, Inr VUnit, Inr VUnit, Inr (VBool True)])) = Some s"
    by (simp add: native_defs go_defs)
  have l: "length ?as < 2 ^ 64" by simp
  from s have h: "heap_db s 0 = Some ?db"
    by (auto simp: native_defs go_defs)
  have o: "db_opened ?db" by simp
  from Close_closes_all [OF s l h o] obtain s1 n2 s' where
    t: "\<forall>i d. db_docss ?db i = Some d \<longrightarrow>
              (\<exists>x c. heap_docs s d = Some x \<and> docs_opened x \<and> docs_docs x = Some c \<and>
                 c \<in> dom (cursors (native s)) \<and>
                 heap_docs s1 d = Some (x\<lparr>docs_opened := False, docs_db := None\<rparr>) \<and>
                 c \<notin> dom (cursors (native s1)) \<and>
                 Docs_Close scripted d s' = Inr s')"
       "db_db ?db \<notin> dom (handles n2)"
       "s' = s1\<lparr>native := n2,
                heap_db := (heap_db s1)(0 \<mapsto> ?db\<lparr>db_docss := Map.empty, db_opened := False\<rparr>)\<rparr>"
       "Db_Close scripted 0 s = Inr s'" "Db_Close scripted 0 s' = Inr s'"
    by blast
  from s have x: "map_option docs_docs (heap_docs s 0) = Some (Some 2)"
    "map_option docs_docs (heap_docs s 1) = Some (Some 3)"
    by (auto simp: native_defs go_defs)
  from t(1) [rule_format, of 0 0] x(1) t(3) have d0:
    "map_option docs_opened (heap_docs s' 0) = Some False" "cursors (native s1) 2 = None"
    "Docs_Close scripted 0 s' = Inr s'" by auto
  from t(1) [rule_format, of 1 1] x(2) t(3) have d1:
    "map_option docs_opened (heap_docs s' 1) = Some False" "cursors (native s1) 3 = None"
    "Docs_Close scripted 1 s' = Inr s'" by auto
  from t(4) s d0(2) d1(2) have cu: "cursors (native s') 2 = None" "cursors (native s') 3 = None"
    by (auto simp: native_defs go_defs)
  from t(2,3) have hd: "handles (native s') 1 = None" by auto
  from t(3) have db: "map_option db_opened (heap_db s' 0) = Some False"
    "map_option db_docss (heap_db s' 0) = Some Map.empty" by simp_all
  from s h t(4,5) d0 d1 cu hd db show ?thesis by simp
qed

lemma All_children:
  assumes "heap_db s r = Some db" "Db_All L r' s = Inr ((d, e), s')"
  shows "d = new_docs s \<and>
         children s' r =
           Some (if r' = r \<and> e = None then (db_docss db)(db_next db \<mapsto> d) else db_docss db)"
proof -
  from assms(2) obtain db' where db': "heap_db s r' = Some db'"
    by (auto simp: Db_All_def Let_def split: option.splits)
  show ?thesis
  proof (cases "db_opened db'")
    case False
    from All_closed [OF db' False, of L] assms show ?thesis by (auto simp: children_def)
  next
    case True
    from All_opened [OF db' True, of L] assms db' show ?thesis
      by (auto simp: children_def split: sum.splits)
  qed
qed

lemma Query_children:
  assumes "heap_db s r = Some db" "Db_Query L r' q s = Inr ((d, e), s')"
  shows "d = new_docs s \<and>
         children s' r =
           Some (if r' = r \<and> e = None then (db_docss db)(db_next db \<mapsto> d) else db_docss db)"
proof -
  from assms(2) obtain db' where db': "heap_db s r' = Some db'"
    by (auto simp: Db_Query_def Let_def split: option.splits)
  show ?thesis
  proof (cases "db_opened db'")
    case False
    from Query_closed [OF db' False, of L q] assms show ?thesis by (auto simp: children_def)
  next
    case True
    from Query_opened [OF db' True, of L q] assms db' show ?thesis
      by (auto simp: children_def split: sum.splits if_splits)
  qed
qed

lemma Docs_close_children:
  assumes "heap_db s r = Some db" "heap_docs s d = Some x" "Docs_close L d s = Inr s'"
  shows "children s' r =
           Some (if docs_opened x \<and> docs_db x = Some r
                 then (db_docss db)(docs_id x := None) else db_docss db)"
proof (cases "docs_opened x")
  case False
  from Docs_close_closed [OF assms(2) False, of L] assms False show ?thesis
    by (simp add: children_def)
next
  case True
  from Docs_close_result [OF assms(3,2) True] obtain r0 db0 n' where
    "docs_db x = Some r0" "heap_db s r0 = Some db0" "s' = closed_docs d x r0 db0 n' s" by blast
  with assms(1) True show ?thesis by (auto simp: children_def)
qed

lemma Next_children:
  assumes "heap_db s r = Some db" "heap_docs s d = Some x" "Docs_Next L d s = Inr (b, s')"
  shows "children s' r =
           Some (if \<not> b \<and> docs_opened x \<and> docs_db x = Some r
                 then (db_docss db)(docs_id x := None) else db_docss db)"
proof (cases "docs_opened x")
  case False
  from Next_closed [OF assms(2) False, of L] assms False show ?thesis
    by (simp add: children_def)
next
  case True
  from assms True obtain c where c: "docs_docs x = Some c"
    by (cases "docs_docs x") (auto simp: Docs_Next_def)
  note eq = Next_opened [OF assms(2) True c, of L]
  from eq assms(3) obtain ret n1 where
    n: "c_dbxml_docs_next L c (native s) = Inr (ret, n1)"
    by (auto split: sum.splits)
  show ?thesis
  proof (cases "ret = 0")
    case False
    with eq n assms(1,3) show ?thesis by (auto simp: children_def)
  next
    case ret: True
    let ?s1 = "started d x n1 s"
    let ?x1 = "x\<lparr>docs_started := True\<rparr>"
    from eq n ret assms(3) have cl: "Docs_close L d ?s1 = Inr s'" and b: "\<not> b"
      by (auto split: sum.splits)
    have h: "heap_db ?s1 r = Some db" "heap_docs ?s1 d = Some ?x1" using assms(1) by simp_all
    from Docs_close_children [OF h cl] b True show ?thesis by simp
  qed
qed

lemma closed_db_no_children:
  assumes "wf s" "heap_db s r = Some db" "\<not> db_opened db"
  shows "db_docss db = Map.empty"
proof
  fix i
  show "db_docss db i = None"
  proof (cases "db_docss db i")
    case None
    then show ?thesis .
  next
    case (Some d)
    note inv = wfD [OF assms(1)]
    from inv_childrenD [OF inv(2) assms(2) Some] obtain x where
      x: "heap_docs s d = Some x" "docs_opened x" "docs_db x = Some r" by blast
    from inv_ownerD [OF inv(3) x(1,2)] obtain r0 db0 where
      "docs_db x = Some r0" "heap_db s r0 = Some db0" "db_opened db0" by blast
    with x(3) assms(2,3) show ?thesis by simp
  qed
qed

lemma Close_children:
  assumes "wf s" "heap_db s r = Some db" "Db_Close L r' s = Inr s'"
  shows "children s' r = Some (if r' = r then Map.empty else db_docss db)"
proof -
  from assms(3) obtain db' where db': "heap_db s r' = Some db'"
    by (auto simp: Db_Close_def split: option.splits)
  show ?thesis
  proof (cases "db_opened db'")
    case False
    from Db_Close_closed [OF db' False, of L] assms(3) have s': "s' = s" by simp
    show ?thesis
    proof (cases "r' = r")
      case True
      with db' assms(2) False closed_db_no_children [OF assms(1,2)] s' show ?thesis
        by (simp add: children_def)
    next
      case False
      with s' assms(2) show ?thesis by (simp add: children_def)
    qed
  next
    case True
    from Db_Close_wf [OF assms(1) db' True, of L] assms(3) have "close_post r' s s'" by auto
    with assms(2) show ?thesis by (simp add: close_post_def children_def)
  qed
qed

lemma quiet_children: "quiet s s' \<Longrightarrow> children s' r = children s r"
  by (simp add: quiet_def children_def)

lemma other_children:
  assumes "wf s" "heap_db s r = Some db" "exec L a s = Some s'" "\<not> writes_children a"
  shows "children s' r = Some (db_docss db)"
proof -
  have c: "children s r = Some (db_docss db)" using assms(2) by (simp add: children_def)
  show ?thesis
  proof (cases a)
    case (AOpen f)
    with assms obtain x where o: "Open L f s = Inr (x, s')"
      by (auto simp: returned_def split: sum.splits)
    from wfD(1) [OF assms(1)] assms(2) have "r \<noteq> new_db s" unfolding inv_alloc_def by blast
    with o assms(2) show ?thesis
      by (cases rule: Open_result [of L f s]) (auto simp: children_def)
  next
    case (APutFile r f b)
    with assms obtain x where "Db_PutFile L r f b s = Inr (x, s')"
      by (auto simp: returned_def split: sum.splits)
    from quiet_children [OF PutFile_quiet [OF this]] c show ?thesis by simp
  next
    case (APutXml r f d b)
    with assms obtain x where "Db_PutXml L r f d b s = Inr (x, s')"
      by (auto simp: returned_def split: sum.splits)
    from quiet_children [OF PutXml_quiet [OF this]] c show ?thesis by simp
  next
    case (AMerge r f b)
    with assms obtain x where "Db_Merge L r f b s = Some (Inr (x, s'))"
      by (auto simp: returned_def split: sum.splits option.splits)
    from quiet_children [OF Merge_quiet [OF this]] c show ?thesis by simp
  next
    case (ARemove r f)
    with assms obtain x where "Db_Remove L r f s = Inr (x, s')"
      by (auto simp: returned_def split: sum.splits)
    from quiet_children [OF Remove_quiet [OF this]] c show ?thesis by simp
  next
    case (AGet r f)
    with assms obtain x where "Db_Get L r f s = Inr (x, s')"
      by (auto simp: returned_def split: sum.splits)
    from quiet_children [OF Get_quiet [OF this]] c show ?thesis by simp
  next
    case (ASize r)
    with assms obtain x where "Db_Size L r s = Inr (x, s')"
      by (auto simp: returned_def split: sum.splits)
    from quiet_children [OF Size_quiet [OF this]] c show ?thesis by simp
  next
    case (AName d)
    with assms obtain x where "Docs_Name L d s = Inr (x, s')"
      by (auto simp: returned_def split: sum.splits)
    from quiet_children [OF Name_quiet [OF this]] c show ?thesis by simp
  next
    case (AContent d)
    with assms obtain x where "Docs_Content L d s = Inr (x, s')"
      by (auto simp: returned_def split: sum.splits)
    from quiet_children [OF Content_quiet [OF this]] c show ?thesis by simp
  qed (use assms(4) in simp_all)
qed

lemma children_open:
  assumes "wf s" "heap_db s r = Some db"
  shows "db_docss db i = Some d \<longleftrightarrow>
         (\<exists>x. heap_docs s d = Some x \<and> docs_opened x \<and> docs_db x = Some r \<and> docs_id x = i)"
proof
  note inv = wfD [OF assms(1)]
  assume "db_docss db i = Some d"
  from inv_childrenD [OF inv(2) assms(2) this]
  show "\<exists>x. heap_docs s d = Some x \<and> docs_opened x \<and> docs_db x = Some r \<and> docs_id x = i"
    by blast
next
  note inv = wfD [OF assms(1)]
  assume "\<exists>x. heap_docs s d = Some x \<and> docs_opened x \<and> docs_db x = Some r \<and> docs_id x = i"
  then obtain x where x: "heap_docs s d = Some x" "docs_opened x" "docs_db x = Some r"
    "docs_id x = i" by blast
  from inv_ownerD [OF inv(3) x(1,2)] obtain r0 db0 where
    "docs_db x = Some r0" "heap_db s r0 = Some db0" "db_docss db0 (docs_id x) = Some d" by blast
  with x(3,4) assms(2) show "db_docss db i = Some d" by simp
qed

lemma next_id_fresh:
  assumes "wf s" "heap_db s r = Some db"
  shows "db_docss db (db_next db) = None"
proof (cases "db_docss db (db_next db)")
  case None
  then show ?thesis .
next
  case (Some d)
  from inv_childrenD [OF wfD(2) [OF assms(1)] assms(2) Some] have "db_next db < db_next db"
    by blast
  then show ?thesis by simp
qed

text \<open>
  C3. In a world reached by fewer than \<open>2^64\<close> calls, the map of a connection holds
  exactly the iterators that are open and have this connection as their owner, each under
  its own id; the next id of the connection is not in the map. The calls change the map
  as follows: \<open>All\<close> and \<open>Query\<close> on this connection, when they return no error, insert
  the iterator they return, which is new, under the next id, and otherwise change nothing;
  \<open>Close\<close> of an open iterator of this connection, and \<open>Next\<close> on it when it returns
  false, delete the id of the iterator; \<open>Close\<close> of the connection leaves the map empty;
  and every other call, and each of these calls on another connection or on an iterator
  of another connection, leaves the map as it is.
\<close>

theorem children_are_open_iterators:
  assumes "run L as (boot w) = Some s" "length as < 2 ^ 64" "heap_db s r = Some db"
  shows "(\<forall>i d. db_docss db i = Some d \<longleftrightarrow>
            (\<exists>x. heap_docs s d = Some x \<and> docs_opened x \<and> docs_db x = Some r \<and>
                 docs_id x = i)) \<and>
         db_docss db (db_next db) = None \<and>
         (\<forall>r' d e s'. Db_All L r' s = Inr ((d, e), s') \<longrightarrow>
            d \<notin> dom (heap_docs s) \<and>
            children s' r =
              Some (if r' = r \<and> e = None then (db_docss db)(db_next db \<mapsto> d)
                    else db_docss db)) \<and>
         (\<forall>r' q d e s'. Db_Query L r' q s = Inr ((d, e), s') \<longrightarrow>
            d \<notin> dom (heap_docs s) \<and>
            children s' r =
              Some (if r' = r \<and> e = None then (db_docss db)(db_next db \<mapsto> d)
                    else db_docss db)) \<and>
         (\<forall>d x s'. heap_docs s d = Some x \<longrightarrow> Docs_Close L d s = Inr s' \<longrightarrow>
            children s' r =
              Some (if docs_opened x \<and> docs_db x = Some r
                    then (db_docss db)(docs_id x := None) else db_docss db)) \<and>
         (\<forall>d x b s'. heap_docs s d = Some x \<longrightarrow> Docs_Next L d s = Inr (b, s') \<longrightarrow>
            children s' r =
              Some (if \<not> b \<and> docs_opened x \<and> docs_db x = Some r
                    then (db_docss db)(docs_id x := None) else db_docss db)) \<and>
         (\<forall>r' s'. Db_Close L r' s = Inr s' \<longrightarrow>
            children s' r = Some (if r' = r then Map.empty else db_docss db)) \<and>
         (\<forall>a s'. exec L a s = Some s' \<longrightarrow> \<not> writes_children a \<longrightarrow>
            children s' r = Some (db_docss db))"
proof -
  from run_wf [OF assms(1,2)] have w: "wf s" .
  have new: "new_docs s \<notin> dom (heap_docs s)"
    using wfD(1) [OF w] unfolding inv_alloc_def by blast
  have 1: "\<forall>i d. db_docss db i = Some d \<longleftrightarrow>
            (\<exists>x. heap_docs s d = Some x \<and> docs_opened x \<and> docs_db x = Some r \<and>
                 docs_id x = i)"
    using children_open [OF w assms(3)] by blast
  have 2: "db_docss db (db_next db) = None" by (rule next_id_fresh [OF w assms(3)])
  have 3: "\<forall>r' d e s'. Db_All L r' s = Inr ((d, e), s') \<longrightarrow>
            d \<notin> dom (heap_docs s) \<and>
            children s' r =
              Some (if r' = r \<and> e = None then (db_docss db)(db_next db \<mapsto> d)
                    else db_docss db)"
    using All_children [OF assms(3), of L] new by blast
  have 4: "\<forall>r' q d e s'. Db_Query L r' q s = Inr ((d, e), s') \<longrightarrow>
            d \<notin> dom (heap_docs s) \<and>
            children s' r =
              Some (if r' = r \<and> e = None then (db_docss db)(db_next db \<mapsto> d)
                    else db_docss db)"
    using Query_children [OF assms(3), of L] new by blast
  have 5: "\<forall>d x s'. heap_docs s d = Some x \<longrightarrow> Docs_Close L d s = Inr s' \<longrightarrow>
            children s' r =
              Some (if docs_opened x \<and> docs_db x = Some r
                    then (db_docss db)(docs_id x := None) else db_docss db)"
    using Docs_close_children [OF assms(3), of _ _ L] unfolding Docs_Close_def by blast
  have 6: "\<forall>d x b s'. heap_docs s d = Some x \<longrightarrow> Docs_Next L d s = Inr (b, s') \<longrightarrow>
            children s' r =
              Some (if \<not> b \<and> docs_opened x \<and> docs_db x = Some r
                    then (db_docss db)(docs_id x := None) else db_docss db)"
    using Next_children [OF assms(3), of _ _ L] by blast
  have 7: "\<forall>r' s'. Db_Close L r' s = Inr s' \<longrightarrow>
            children s' r = Some (if r' = r then Map.empty else db_docss db)"
    using Close_children [OF w assms(3), of L] by blast
  have 8: "\<forall>a s'. exec L a s = Some s' \<longrightarrow> \<not> writes_children a \<longrightarrow>
            children s' r = Some (db_docss db)"
    using other_children [OF w assms(3), of L] by blast
  from 1 2 3 4 5 6 7 8 show ?thesis by (intro conjI)
qed

theorem children_are_open_iterators_witness:
  "(case run scripted [AOpen ''db'', AAll 0, AQuery 0 ''//a''] (boot (opened_ok @ [Inr VUnit])) of
      None \<Rightarrow> False
    | Some s \<Rightarrow>
        children s 0 = Some [0 \<mapsto> 0, 1 \<mapsto> 1] \<and>
        map_option docs_opened (heap_docs s 0) = Some True \<and>
        map_option docs_opened (heap_docs s 1) = Some True \<and>
        (case Docs_Close scripted 0 s of
           Inl f \<Rightarrow> False
         | Inr s' \<Rightarrow> children s' 0 = Some ([0 \<mapsto> 0, 1 \<mapsto> 1](0 := None))) \<and>
        (case Db_All scripted 0 s of
           Inl f \<Rightarrow> False
         | Inr ((d, e), s') \<Rightarrow>
             d = 2 \<and> e = None \<and> children s' 0 = Some [0 \<mapsto> 0, 1 \<mapsto> 1, 2 \<mapsto> 2]) \<and>
        (case Db_Close scripted 0 s of
           Inl f \<Rightarrow> False
         | Inr s' \<Rightarrow> children s' 0 = Some Map.empty) \<and>
        (case exec scripted (AGet 0 ''a'') s of
           None \<Rightarrow> False
         | Some s' \<Rightarrow> children s' 0 = Some [0 \<mapsto> 0, 1 \<mapsto> 1]))"
proof -
  let ?as = "[AOpen ''db'', AAll 0, AQuery 0 ''//a'']"
  let ?db = "\<lparr>db_opened = True, db_db = 1, db_next = 2, db_docss = [0 \<mapsto> 0, 1 \<mapsto> 1]\<rparr>"
  let ?x = "\<lparr>docs_db = Some 0, docs_id = 0, docs_started = False, docs_opened = True,
             docs_docs = Some 2\<rparr>"
  obtain s where s: "run scripted ?as (boot (opened_ok @ [Inr VUnit])) = Some s"
    by (simp add: native_defs go_defs)
  have l: "length ?as < 2 ^ 64" by simp
  from s have h: "heap_db s 0 = Some ?db"
    by (auto simp: native_defs go_defs)
  from s have x: "heap_docs s 0 = Some ?x" and
    o: "map_option docs_opened (heap_docs s 1) = Some True"
    by (auto simp: native_defs go_defs)
  note t = children_are_open_iterators [OF s l h]
  from h have c: "children s 0 = Some [0 \<mapsto> 0, 1 \<mapsto> 1]" by (simp add: children_def)
  from s obtain s1 where s1: "Docs_Close scripted 0 s = Inr s1"
    by (auto simp: native_defs go_defs)
  from t x s1 have c1: "children s1 0 = Some ([0 \<mapsto> 0, 1 \<mapsto> 1](0 := None))"
    by simp
  from s obtain s2 where s2: "Db_All scripted 0 s = Inr ((2, None), s2)"
    by (auto simp: native_defs go_defs)
  from t s2 have c2: "children s2 0 = Some [0 \<mapsto> 0, 1 \<mapsto> 1, 2 \<mapsto> 2]"
    by simp
  from s obtain s3 where s3: "Db_Close scripted 0 s = Inr s3"
    by (auto simp: native_defs go_defs)
  from t s3 have c3: "children s3 0 = Some Map.empty" by simp
  from s obtain s4 where s4: "exec scripted (AGet 0 ''a'') s = Some s4"
    by (auto simp: native_defs go_defs)
  from t have "\<forall>a s'. exec scripted a s = Some s' \<longrightarrow> \<not> writes_children a \<longrightarrow>
            children s' 0 = Some (db_docss ?db)" by (elim conjE)
  from this [rule_format, OF s4] have c4: "children s4 0 = Some [0 \<mapsto> 0, 1 \<mapsto> 1]" by simp
  from s c x o s1 c1 s2 c2 s3 c3 s4 c4 show ?thesis by simp
qed

lemmas attempt_defs =
  attempt_def called_def attempts_def opens_def creates_def threw_def found_def aliased_def
  failure_def thrown_def caught_def

lemma lib_cases:
  obtains r n1 where "lib L c n = (r, n1)" "trace n1 = trace n @ [Lib c r]"
proof -
  have "lib L c n = (fst (lib L c n), snd (lib L c n))" by simp
  moreover have "trace (snd (lib L c n)) = trace n @ [Lib c (fst (lib L c n))]" by simp
  ultimately show ?thesis by (rule that)
qed

lemma open_try_attempt:
  assumes "\<not> error t" "errstring t = []"
  shows "\<exists>e. trace (snd (open_try L h f i (t, n))) = trace n @ e \<and>
             attempt h f (config_readOnly t \<or> i = 1) e (fst (open_try L h f i (t, n)))"
proof -
  let ?ro = "config_readOnly t \<or> i = 1"
  let ?t1 = "if i = 1 then t\<lparr>config_readOnly := True\<rparr> else t"
  have ro: "config_readOnly ?t1 = ?ro" by simp
  have t1: "\<not> error ?t1" "errstring ?t1 = []" using assms by simp_all
  obtain r0 n1 where l0: "lib L (CreateUpdateContext h) n = (r0, n1)"
    and tr0: "trace n1 = trace n @ [Lib (CreateUpdateContext h) r0]" by (rule lib_cases)
  show ?thesis
  proof (cases r0)
    case (Inl what)
    with l0 have "open_try L h f i (t, n) = (caught what t, n1)" by (simp add: open_try_def)
    moreover have "attempt h f ?ro [Lib (CreateUpdateContext h) r0] (caught what t)"
      using Inl by (simp add: attempt_defs)
    ultimately show ?thesis using tr0 by simp
  next
    case c0: (Inr v0)
    obtain r1 n2 where l1: "lib L (ExistsContainer h f) n1 = (r1, n2)"
      and tr1: "trace n2 = trace n1 @ [Lib (ExistsContainer h f) r1]" by (rule lib_cases)
    show ?thesis
    proof (cases r1)
      case (Inl what)
      with l0 c0 l1 have "open_try L h f i (t, n) = (caught what ?t1, n2)"
        by (simp add: open_try_def Let_def)
      moreover have "attempt h f ?ro [Lib (CreateUpdateContext h) r0, Lib (ExistsContainer h f) r1]
          (caught what ?t1)"
        using Inl c0 by (simp add: attempt_defs)
      ultimately show ?thesis using tr0 tr1 by simp
    next
      case c1: (Inr ex)
      let ?c = "if the_bool ex then OpenContainer h f ?ro else CreateContainer h f"
      obtain r2 n3 where l2: "lib L ?c n2 = (r2, n3)"
        and tr2: "trace n3 = trace n2 @ [Lib ?c r2]" by (rule lib_cases)
      have l2': "lib L (if the_bool ex then OpenContainer h f (config_readOnly ?t1)
                        else CreateContainer h f) n2 = (r2, n3)"
        using l2 unfolding ro .
      show ?thesis
      proof (cases r2)
        case (Inl what)
        with l0 c0 l1 c1 l2' have "open_try L h f i (t, n) = (caught what ?t1, n3)"
          by (simp add: open_try_def Let_def)
        moreover have "attempt h f ?ro
            [Lib (CreateUpdateContext h) r0, Lib (ExistsContainer h f) r1, Lib ?c r2]
            (caught what ?t1)"
          using Inl c0 c1 by (cases "the_bool ex") (simp_all add: attempt_defs)
        ultimately show ?thesis using tr0 tr1 tr2 by simp
      next
        case c2: (Inr v2)
        obtain r3 n4 where l3: "lib L (AddAlias h ALIAS) n3 = (r3, n4)"
          and tr3: "trace n4 = trace n3 @ [Lib (AddAlias h ALIAS) r3]" by (rule lib_cases)
        let ?e = "[Lib (CreateUpdateContext h) r0, Lib (ExistsContainer h f) r1, Lib ?c r2,
                   Lib (AddAlias h ALIAS) r3]"
        have tr: "trace n4 = trace n @ ?e" using tr0 tr1 tr2 tr3 by simp
        show ?thesis
        proof (cases r3)
          case (Inl what)
          with l0 c0 l1 c1 l2' c2 l3 have "open_try L h f i (t, n) = (caught what ?t1, n4)"
            by (simp add: open_try_def Let_def)
          moreover have "attempt h f ?ro ?e (caught what ?t1)"
            using Inl c0 c1 c2 by (cases "the_bool ex") (simp_all add: attempt_defs)
          ultimately show ?thesis using tr by simp
        next
          case c3: (Inr ok)
          show ?thesis
          proof (cases "the_bool ok")
            case False
            let ?t2 = "?t1\<lparr>errstring := ''Unable to add alias '' @ [CHR 0x22] @ ALIAS @ [CHR 0x22],
                             error := True\<rparr>"
            from False l0 c0 l1 c1 l2' c2 l3 c3 have "open_try L h f i (t, n) = (?t2, n4)"
              by (simp add: open_try_def Let_def)
            moreover have "attempt h f ?ro ?e ?t2"
              using False c0 c1 c2 c3 by (cases "the_bool ex") (simp_all add: attempt_defs)
            ultimately show ?thesis using tr by simp
          next
            case True
            with l0 c0 l1 c1 l2' c2 l3 c3 have "open_try L h f i (t, n) = (?t1, n4)"
              by (simp add: open_try_def Let_def)
            moreover have "attempt h f ?ro ?e ?t1"
              using True c0 c1 c2 c3 t1 by (cases "the_bool ex") (simp_all add: attempt_defs)
            ultimately show ?thesis using tr by simp
          qed
        qed
      qed
    qed
  qed
qed

lemma open_loop_two:
  "open_loop L h f 0 (t0, n0) =
     (let a1 = open_try L h f 0 (t0\<lparr>error := False, errstring := []\<rparr>, n0)
      in if \<not> error (fst a1) then a1
         else open_try L h f 1 (fst a1\<lparr>error := False, errstring := []\<rparr>, snd a1))"
  by (simp add: open_loop.simps [of L h f 0] open_loop.simps [of L h f 1]
        open_loop.simps [of L h f 2] Let_def split: prod.splits)

text \<open>
  C8, as the specification states it: when the first attempt fails, \<open>Open\<close> retries in
  read-only mode. It does not hold of a container that does not exist: the retry then
  calls \<open>createContainer\<close> again, to which the configuration is not passed. Here the
  first creation throws and the second one succeeds: \<open>Open\<close> returns an open connection
  after two attempts, in which no container has been opened read-only (none has been
  opened at all) and one has been created twice.
\<close>

theorem Open_retry_creates:
  "(case Open scripted ''db''
          (boot [Inr VUnit, Inr (VBool False), Inl ''cannot create'',
                 Inr VUnit, Inr (VBool False), Inr VUnit, Inr (VBool True)]) of
      Inl f \<Rightarrow> False
    | Inr ((r, e), s') \<Rightarrow>
        e = None \<and> map_option db_opened (heap_db s' r) = Some True \<and>
        attempts (trace (native s')) = 2 \<and> threw (trace (native s')) = [''cannot create''] \<and>
        opens (trace (native s')) = [] \<and> creates (trace (native s')) = 2)"
  by (simp add: native_defs go_defs attempts_def opens_def creates_def threw_def)

text \<open>
  C8, amended. \<open>Open\<close> in any world, for any file name. With \<open>h\<close> the handle that
  \<open>c_dbxml_open\<close> allocates, \<open>a1\<close> the first round of its loop and \<open>a2\<close> the round
  that follows a failed first one, and \<open>e1\<close>, \<open>e2\<close> what the two rounds add to the
  trace: each round is one attempt, the first with a configuration that is not read-only
  and the second with one that is; an attempt opens the container with its configuration
  when the library says that the container exists, and creates it, without the
  configuration, when the library says that it does not; it fails, and leaves the error
  flag set, exactly when one of its library calls throws, which ends the attempt, or the
  alias cannot be added. When the first attempt does not fail, there is no second one, and
  \<open>Open\<close> returns an open connection on \<open>h\<close> and no error. When it fails, the second
  attempt is made, and no third: if that does not fail, \<open>Open\<close> returns an open connection
  on \<open>h\<close> and no error; if it fails, \<open>Open\<close> reads the message of the second attempt,
  frees \<open>h\<close>, and returns that message as the error, with a connection that is not open.
\<close>

theorem Open_fallback:
  "(let h = fresh (native s);
        n0 = enter F_open h ((native s)\<lparr>fresh := Suc h\<rparr>);
        t0 = \<lparr>config_readOnly = False, error = False, errstring = [], result = []\<rparr>;
        a1 = open_try L h filename 0 (t0, n0);
        a2 = open_try L h filename 1 (fst a1\<lparr>error := False, errstring := []\<rparr>, snd a1);
        e1 = drop (length (trace n0)) (trace (snd a1));
        e2 = drop (length (trace (snd a1))) (trace (snd a2));
        r = new_db s
    in trace (snd a1) = trace (native s) @ [Call F_open h] @ e1 \<and>
       attempt h filename False e1 (fst a1) \<and>
       trace (snd a2) = trace (snd a1) @ e2 \<and>
       attempt h filename True e2 (fst a2) \<and>
       (if \<not> error (fst a1)
        then c_dbxml_open L filename (native s) = (h, store h (fst a1) (snd a1)) \<and>
             (\<exists>s'. Open L filename s = Inr ((r, None), s') \<and>
                   trace (native s') = trace (snd a1) @ [Call F_error h] \<and>
                   heap_db s' r =
                     Some \<lparr>db_opened = True, db_db = h, db_next = 0, db_docss = Map.empty\<rparr> \<and>
                   handles (native s') h = Some (fst a1))
        else c_dbxml_open L filename (native s) = (h, store h (fst a2) (snd a2)) \<and>
             (if \<not> error (fst a2)
              then \<exists>s'. Open L filename s = Inr ((r, None), s') \<and>
                     trace (native s') = trace (snd a2) @ [Call F_error h] \<and>
                     heap_db s' r =
                       Some \<lparr>db_opened = True, db_db = h, db_next = 0, db_docss = Map.empty\<rparr> \<and>
                     handles (native s') h = Some (fst a2)
              else \<exists>s' v. Open L filename s =
                       Inr ((r, Some (errors_New (errstring (fst a2)))), s') \<and>
                     trace (native s') =
                       trace (snd a2) @
                       [Call F_error h, Call F_errstring h, Call F_free h, Lib (DeleteDb h) v] \<and>
                     heap_db s' r =
                       Some \<lparr>db_opened = False, db_db = h, db_next = 0, db_docss = Map.empty\<rparr> \<and>
                     handles (native s') h = None)))"
proof -
  let ?h = "fresh (native s)"
  let ?n0 = "enter F_open ?h ((native s)\<lparr>fresh := Suc ?h\<rparr>)"
  let ?t0 = "\<lparr>config_readOnly = False, error = False, errstring = [], result = []\<rparr>"
  let ?a1 = "open_try L ?h filename 0 (?t0, ?n0)"
  let ?t1 = "fst ?a1\<lparr>error := False, errstring := []\<rparr>"
  let ?a2 = "open_try L ?h filename 1 (?t1, snd ?a1)"
  let ?e1 = "drop (length (trace ?n0)) (trace (snd ?a1))"
  let ?e2 = "drop (length (trace (snd ?a1))) (trace (snd ?a2))"
  from open_try_attempt [of ?t0 L ?h filename 0 ?n0] obtain e where
    e: "trace (snd ?a1) = trace ?n0 @ e" "attempt ?h filename False e (fst ?a1)"
    by auto
  from e(1) have e1: "?e1 = e" by simp
  from open_try_attempt [of ?t1 L ?h filename 1 "snd ?a1"] obtain e' where
    e': "trace (snd ?a2) = trace (snd ?a1) @ e'" "attempt ?h filename True e' (fst ?a2)"
    by auto
  from e'(1) have e2: "?e2 = e'" by simp
  have p1: "trace (snd ?a1) = trace (native s) @ [Call F_open ?h] @ ?e1"
    unfolding e1 using e(1) by (simp add: enter_def)
  have p2: "attempt ?h filename False ?e1 (fst ?a1)" unfolding e1 using e(2) .
  have p3: "trace (snd ?a2) = trace (snd ?a1) @ ?e2" unfolding e2 using e'(1) .
  have p4: "attempt ?h filename True ?e2 (fst ?a2)" unfolding e2 using e'(2) .
  have t0: "?t0\<lparr>error := False, errstring := []\<rparr> = ?t0" by simp
  have o: "c_dbxml_open L filename (native s) =
      (if \<not> error (fst ?a1) then (?h, store ?h (fst ?a1) (snd ?a1))
       else (?h, store ?h (fst ?a2) (snd ?a2)))"
    by (simp add: c_dbxml_open_def open_loop_two t0 Let_def split: prod.splits)
  have ok: "\<exists>s'. Open L filename s = Inr ((new_db s, None), s') \<and>
                   trace (native s') = trace n @ [Call F_error ?h] \<and>
                   heap_db s' (new_db s) =
                     Some \<lparr>db_opened = True, db_db = ?h, db_next = 0, db_docss = Map.empty\<rparr> \<and>
                   handles (native s') ?h = Some t"
    if "c_dbxml_open L filename (native s) = (?h, store ?h t n)" "\<not> error t" for t n
    using that
    by (simp add: Open_def Let_def c_dbxml_error_def store_def enter_def)
  have bad: "\<exists>s' v. Open L filename s = Inr ((new_db s, Some (errors_New (errstring t))), s') \<and>
                     trace (native s') =
                       trace n @
                       [Call F_error ?h, Call F_errstring ?h, Call F_free ?h, Lib (DeleteDb ?h) v] \<and>
                     heap_db s' (new_db s) =
                       Some \<lparr>db_opened = False, db_db = ?h, db_next = 0, db_docss = Map.empty\<rparr> \<and>
                     handles (native s') ?h = None"
    if "c_dbxml_open L filename (native s) = (?h, store ?h t n)" "error t" for t n
    using that
    by (simp add: Open_def Let_def c_dbxml_error_def c_dbxml_errstring_def c_dbxml_free_def
          store_def enter_def lib_eq)
  show ?thesis
  proof (cases "error (fst ?a1)")
    case False
    with o have "c_dbxml_open L filename (native s) = (?h, store ?h (fst ?a1) (snd ?a1))" by simp
    from this ok [OF this] False p1 p2 p3 p4 show ?thesis unfolding Let_def by simp
  next
    case True
    with o have c: "c_dbxml_open L filename (native s) = (?h, store ?h (fst ?a2) (snd ?a2))" by simp
    show ?thesis
    proof (cases "error (fst ?a2)")
      case False
      from c ok [OF c False] True False p1 p2 p3 p4 show ?thesis unfolding Let_def by simp
    next
      case e2: True
      from c bad [OF c e2] True e2 p1 p2 p3 p4 show ?thesis unfolding Let_def by simp
    qed
  qed
qed

theorem Open_fallback_witness:
  "(case Open scripted ''db''
          (boot [Inr VUnit, Inr (VBool True), Inl ''permission denied'',
                 Inr VUnit, Inr (VBool True), Inr VUnit, Inr (VBool True)]) of
      Inl f \<Rightarrow> False
    | Inr ((r, e), s') \<Rightarrow>
        r = 0 \<and> e = None \<and> attempts (trace (native s')) = 2 \<and>
        opens (trace (native s')) = [False, True] \<and> creates (trace (native s')) = 0 \<and>
        threw (trace (native s')) = [''permission denied''] \<and>
        map_option config_readOnly (handles (native s') 1) = Some True \<and>
        map_option db_opened (heap_db s' 0) = Some True) \<and>
   (case Open scripted ''db'' (boot [Inl ''no environment'', Inl ''still none'']) of
      Inl f \<Rightarrow> False
    | Inr ((r, e), s') \<Rightarrow>
        r = 0 \<and> e = Some (errors_New ''still none'') \<and> attempts (trace (native s')) = 2 \<and>
        threw (trace (native s')) = [''no environment'', ''still none''] \<and>
        handles (native s') 1 = None \<and>
        map_option db_opened (heap_db s' 0) = Some False)"
proof -
  let ?w1 = "[Inr VUnit, Inr (VBool True), Inl ''permission denied'',
              Inr VUnit, Inr (VBool True), Inr VUnit, Inr (VBool True)]"
  let ?w2 = "[Inl ''no environment'', Inl ''still none'']"
  note t1 = Open_fallback [where s = "boot ?w1" and L = scripted and filename = "''db''"]
  note t2 = Open_fallback [where s = "boot ?w2" and L = scripted and filename = "''db''"]
  from t1 have 1: "(case Open scripted ''db'' (boot ?w1) of
      Inl f \<Rightarrow> False
    | Inr ((r, e), s') \<Rightarrow>
        r = 0 \<and> e = None \<and> attempts (trace (native s')) = 2 \<and>
        opens (trace (native s')) = [False, True] \<and> creates (trace (native s')) = 0 \<and>
        threw (trace (native s')) = [''permission denied''] \<and>
        map_option config_readOnly (handles (native s') 1) = Some True \<and>
        map_option db_opened (heap_db s' 0) = Some True)"
    by (auto simp: native_defs go_defs attempts_def opens_def creates_def threw_def)
  from t2 have 2: "(case Open scripted ''db'' (boot ?w2) of
      Inl f \<Rightarrow> False
    | Inr ((r, e), s') \<Rightarrow>
        r = 0 \<and> e = Some (errors_New ''still none'') \<and> attempts (trace (native s')) = 2 \<and>
        threw (trace (native s')) = [''no environment'', ''still none''] \<and>
        handles (native s') 1 = None \<and>
        map_option db_opened (heap_db s' 0) = Some False)"
    by (auto simp: native_defs go_defs attempts_def opens_def creates_def threw_def)
  from 1 2 show ?thesis by (rule conjI)
qed

end
